theory Spec2Isabelle
  imports Main "HOL-Library.Word"
begin

section \<open>JavaScript strings\<close>

text \<open>
  A JavaScript string is a sequence of UTF-16 code units. The regular expressions of
  \<^verbatim>\<open>handleSendChat\<close> carry no \<^verbatim>\<open>u\<close> flag, so they match code unit by code unit,
  and \<^verbatim>\<open>slice\<close> and \<^verbatim>\<open>length\<close> count code units as well.
\<close>

type_synonym code_unit = "16 word"
type_synonym js_string = "code_unit list"

text \<open>ASCII text of the examples, written as an Isabelle string literal.\<close>

definition ascii :: "string \<Rightarrow> js_string" where
  "ascii cs = map of_char cs"

text \<open>
  \<^verbatim>\<open>.\<close> without the \<^verbatim>\<open>s\<close> flag matches every code unit but the four line
  terminators LF, CR, U+2028 and U+2029.
\<close>

definition is_line_terminator :: "code_unit \<Rightarrow> bool" where
  "is_line_terminator c \<longleftrightarrow> c = 0x0A \<or> c = 0x0D \<or> c = 0x2028 \<or> c = 0x2029"

definition dot :: "code_unit \<Rightarrow> bool" where
  "dot c \<longleftrightarrow> \<not> is_line_terminator c"

text \<open>
  \<^verbatim>\<open>\s\<close>, and what \<^verbatim>\<open>trimStart\<close> removes: the WhiteSpace and LineTerminator
  code points of ECMAScript (TAB, LF, VT, FF, CR, space, NBSP, U+1680, U+2000 to U+200A,
  U+2028, U+2029, U+202F, U+205F, U+3000 and the byte order mark U+FEFF).
\<close>

definition is_space :: "code_unit \<Rightarrow> bool" where
  "is_space c \<longleftrightarrow>
     c = 0x09 \<or> c = 0x0A \<or> c = 0x0B \<or> c = 0x0C \<or> c = 0x0D \<or> c = 0x20 \<or> c = 0xA0 \<or>
     c = 0x1680 \<or> (0x2000 \<le> c \<and> c \<le> 0x200A) \<or> c = 0x2028 \<or> c = 0x2029 \<or>
     c = 0x202F \<or> c = 0x205F \<or> c = 0x3000 \<or> c = 0xFEFF"

definition trimStart :: "js_string \<Rightarrow> js_string" where
  "trimStart s = dropWhile is_space s"

text \<open>\<^verbatim>\<open>s.slice(n)\<close> for \<open>0 \<le> n\<close>: the string from index \<open>n\<close> on.\<close>

definition slice :: "js_string \<Rightarrow> nat \<Rightarrow> js_string" where
  "slice s n = drop n s"

section \<open>The three regular expressions of \<^verbatim>\<open>handleSendChat\<close>\<close>

text \<open>
  ECMAScript gives a pattern its meaning as a backtracking matcher in continuation
  passing style: every piece of the pattern takes the rest of the input and a
  continuation for what follows it, and the first alternative that lets the continuation
  succeed wins. A matcher here returns the input left after the whole match, or
  \<open>None\<close>. All three patterns start with \<^verbatim>\<open>^\<close> and have no \<^verbatim>\<open>m\<close> flag, so a
  match can only start at index 0.
\<close>

type_synonym matcher = "js_string \<Rightarrow> js_string option"

text \<open>One code unit of a class.\<close>

fun one :: "(code_unit \<Rightarrow> bool) \<Rightarrow> matcher \<Rightarrow> matcher" where
  "one p k [] = None"
| "one p k (c # cs) = (if p c then k cs else None)"

text \<open>\<^verbatim>\<open>X*\<close>, greedy: first try to take one more code unit, then fall back.\<close>

fun greedy_star :: "(code_unit \<Rightarrow> bool) \<Rightarrow> matcher \<Rightarrow> matcher" where
  "greedy_star p k [] = k []"
| "greedy_star p k (c # cs) =
     (if p c
      then (case greedy_star p k cs of Some r \<Rightarrow> Some r | None \<Rightarrow> k (c # cs))
      else k (c # cs))"

text \<open>\<^verbatim>\<open>X*?\<close>, lazy: first try to go on with what follows, then take one more.\<close>

fun lazy_star :: "(code_unit \<Rightarrow> bool) \<Rightarrow> matcher \<Rightarrow> matcher" where
  "lazy_star p k [] = k []"
| "lazy_star p k (c # cs) =
     (case k (c # cs) of
        Some r \<Rightarrow> Some r
      | None \<Rightarrow> if p c then lazy_star p k cs else None)"

text \<open>\<^verbatim>\<open>X{n}\<close>: exactly \<open>n\<close> code units of the class.\<close>

fun exactly :: "nat \<Rightarrow> (code_unit \<Rightarrow> bool) \<Rightarrow> matcher \<Rightarrow> matcher" where
  "exactly 0 p k s = k s"
| "exactly (Suc n) p k s = one p (exactly n p k) s"

text \<open>\<^verbatim>\<open>$\<close> without the \<^verbatim>\<open>m\<close> flag: the end of the input.\<close>

definition at_end :: matcher where
  "at_end s = (if s = [] then Some [] else None)"

text \<open>\<^verbatim>\<open>A|B\<close>: the left alternative first.\<close>

definition alt :: "matcher \<Rightarrow> matcher \<Rightarrow> matcher" where
  "alt a b s = (case a s of Some r \<Rightarrow> Some r | None \<Rightarrow> b s)"

text \<open>
  \<^verbatim>\<open>s.match(re)\<close> for an anchored pattern without the \<^verbatim>\<open>g\<close> flag: \<open>None\<close> is
  JavaScript's \<^verbatim>\<open>null\<close>, \<open>Some m\<close> carries \<^verbatim>\<open>match[0]\<close>, the matched text.
\<close>

definition js_match :: "matcher \<Rightarrow> js_string \<Rightarrow> js_string option" where
  "js_match re s =
     (case re s of None \<Rightarrow> None | Some r \<Rightarrow> Some (take (length s - length r) s))"

text \<open>\<^verbatim>\<open>/^\[(.*?)\]/\<close>\<close>

definition tag_re :: matcher where
  "tag_re = one (\<lambda>c. c = 0x5B) (lazy_star dot (one (\<lambda>c. c = 0x5D) Some))"

text \<open>
  The class \<^verbatim>\<open>[\<dots>\n.!?]\<close> of sentence ends: ideographic full stop U+3002, full-width
  full stop U+FF0E, full-width exclamation mark U+FF01, full-width question mark U+FF1F,
  line feed, and ASCII \<^verbatim>\<open>.\<close>, \<^verbatim>\<open>!\<close>, \<^verbatim>\<open>?\<close>.
\<close>

definition is_sentence_end :: "code_unit \<Rightarrow> bool" where
  "is_sentence_end c \<longleftrightarrow>
     c = 0x3002 \<or> c = 0xFF0E \<or> c = 0xFF01 \<or> c = 0xFF1F \<or> c = 0x0A \<or>
     c = 0x2E \<or> c = 0x21 \<or> c = 0x3F"

text \<open>The class of commas: ideographic comma U+3001 and ASCII \<^verbatim>\<open>,\<close>.\<close>

definition is_comma :: "code_unit \<Rightarrow> bool" where
  "is_comma c \<longleftrightarrow> c = 0x3001 \<or> c = 0x2C"

text \<open>\<^verbatim>\<open>/^(.+[\<dots>\n.!?]|.{10,}[\<dots>,])/\<close>\<close>

definition sentence_re :: matcher where
  "sentence_re =
     alt (one dot (greedy_star dot (one is_sentence_end Some)))
         (exactly 10 dot (greedy_star dot (one is_comma Some)))"

text \<open>
  The class of the third pattern: \<^verbatim>\<open>\s\<close> and the opening and closing brackets and
  quotation marks listed in the source, in the order of the source.
\<close>

definition is_bracket :: "code_unit \<Rightarrow> bool" where
  "is_bracket c \<longleftrightarrow>
     is_space c \<or> c = 0x5B \<or> c = 0x28 \<or> c = 0x7B \<or> c = 0x300C \<or> c = 0xFF3B \<or>
     c = 0xFF08 \<or> c = 0x3010 \<or> c = 0x300E \<or> c = 0x3008 \<or> c = 0x300A \<or> c = 0x3014 \<or>
     c = 0xFF5B \<or> c = 0xAB \<or> c = 0x2039 \<or> c = 0x3018 \<or> c = 0x301A \<or> c = 0x301B \<or>
     c = 0x3019 \<or> c = 0x203A \<or> c = 0xBB \<or> c = 0x3015 \<or> c = 0x300B \<or> c = 0x3009 \<or>
     c = 0x300F \<or> c = 0x3011 \<or> c = 0xFF09 \<or> c = 0xFF3D \<or> c = 0x300D \<or> c = 0x7D \<or>
     c = 0x29 \<or> c = 0x5D"

text \<open>\<^verbatim>\<open>/^[\<dots>]+$/g\<close>\<close>

definition bracket_re :: matcher where
  "bracket_re = one is_bracket (greedy_star is_bracket at_end)"

text \<open>
  \<^verbatim>\<open>sentence.replace(/^[\<dots>]+$/g, "")\<close>: the pattern is anchored at both ends, so
  it matches at most once, at index 0, and the match is then cut out.
\<close>

definition replace_brackets :: "js_string \<Rightarrow> js_string" where
  "replace_brackets s =
     (case js_match bracket_re s of None \<Rightarrow> s | Some m \<Rightarrow> slice s (length m))"

section \<open>The streaming chat turn: \<^verbatim>\<open>handleSendChat\<close>\<close>

text \<open>
  Lines 226 to 233: a leading \<^verbatim>\<open>[...]\<close> at index 0 of the buffer becomes the
  current tag and is cut off the buffer. The function returns the new tag and buffer.
  \<^verbatim>\<open>tagMatch && tagMatch[0]\<close> also asks that the matched text is not the empty
  string, which is falsy.
\<close>

definition strip_tag :: "js_string \<Rightarrow> js_string \<Rightarrow> js_string \<times> js_string" where
  "strip_tag tag received =
     (case js_match tag_re received of
        None \<Rightarrow> (tag, received)
      | Some m \<Rightarrow> if m = [] then (tag, received) else (m, slice received (length m)))"

text \<open>
  Lines 236 to 248: one unit is cut off the front of the buffer, and what is left is
  trimmed. The function returns the unit, if any, and the new buffer.
\<close>

definition extract_sentence :: "js_string \<Rightarrow> js_string option \<times> js_string" where
  "extract_sentence received =
     (case js_match sentence_re received of
        None \<Rightarrow> (None, received)
      | Some sentence \<Rightarrow>
          if sentence = [] then (None, received)
          else (Some sentence, trimStart (slice received (length sentence))))"

text \<open>\<^verbatim>\<open>sentences.join(" ")\<close>\<close>

fun join_space :: "js_string list \<Rightarrow> js_string" where
  "join_space [] = []"
| "join_space [s] = s"
| "join_space (s # t # ss) = s @ [0x20] @ join_space (t # ss)"

text \<open>
  One call \<^verbatim>\<open>handleSpeakAi(aiTalks[0], ..., () => setAssistantMessage(currentAssistantMessage))\<close>:
  \<open>talk\<close> is the text \<^verbatim>\<open>aiText\<close> that \<^verbatim>\<open>textsToScreenplay\<close> turns into the
  screenplay, \<open>shown\<close> the message that the start callback displays.
\<close>

record dispatch =
  talk :: js_string
  shown :: js_string

text \<open>
  The local variables of the reading loop, and the calls of \<^verbatim>\<open>handleSpeakAi\<close> made
  so far, oldest first.
\<close>

record turn_state =
  receivedMessage :: js_string
  aiTextLog :: js_string
  tag :: js_string
  sentences :: "js_string list"
  dispatched :: "dispatch list"

definition new_turn :: turn_state where
  "new_turn = \<lparr>receivedMessage = [], aiTextLog = [], tag = [], sentences = [], dispatched = []\<rparr>"

text \<open>
  The body of the \<^verbatim>\<open>while\<close> loop for one chunk \<open>v\<close> that \<^verbatim>\<open>reader.read()\<close>
  delivered (lines 220 to 269). The unit is pushed on \<^verbatim>\<open>sentences\<close> and cut off the
  buffer before the test for unspeakable text, whose \<^verbatim>\<open>continue\<close> skips the rest.
\<close>

definition process_chunk :: "turn_state \<Rightarrow> js_string \<Rightarrow> turn_state" where
  "process_chunk t v =
     (let (tag', received) = strip_tag (tag t) (receivedMessage t @ v);
          t1 = t\<lparr>receivedMessage := received, tag := tag'\<rparr>
      in case extract_sentence received of
           (None, _) \<Rightarrow> t1
         | (Some sentence, rest) \<Rightarrow>
             let t2 = t1\<lparr>sentences := sentences t1 @ [sentence], receivedMessage := rest\<rparr>
             in if replace_brackets sentence = [] then t2
                else
                  let aiText = tag' @ [0x20] @ sentence
                  in t2\<lparr>aiTextLog := aiTextLog t2 @ aiText,
                        dispatched := dispatched t2 @
                          [\<lparr>talk = aiText, shown = join_space (sentences t2)\<rparr>]\<rparr>)"

definition run_chunks :: "turn_state \<Rightarrow> js_string list \<Rightarrow> turn_state" where
  "run_chunks t vs = foldl process_chunk t vs"

text \<open>No chunk of \<open>vs\<close> makes the tag pattern match the buffer.\<close>

fun tag_free :: "turn_state \<Rightarrow> js_string list \<Rightarrow> bool" where
  "tag_free t [] = True"
| "tag_free t (v # vs) =
     (js_match tag_re (receivedMessage t @ v) = None \<and> tag_free (process_chunk t v) vs)"

text \<open>
  The shapes of a unit as the sentence pattern has them: one or more code units, none
  of them a line terminator, and then a sentence end; or at least ten code units, none
  of them a line terminator, and then a comma. The sentence end itself may be a line
  feed.
\<close>

definition sentence_unit :: "js_string \<Rightarrow> bool" where
  "sentence_unit u \<longleftrightarrow>
     u \<noteq> [] \<and> butlast u \<noteq> [] \<and> list_all dot (butlast u) \<and> is_sentence_end (last u)"

definition comma_unit :: "js_string \<Rightarrow> bool" where
  "comma_unit u \<longleftrightarrow>
     u \<noteq> [] \<and> 10 \<le> length (butlast u) \<and> list_all dot (butlast u) \<and> is_comma (last u)"

definition has_unit :: "js_string \<Rightarrow> bool" where
  "has_unit buf \<longleftrightarrow>
     (\<exists>n \<in> {..length buf}. sentence_unit (take n buf) \<or> comma_unit (take n buf))"




section \<open>Speech dispatch: \<^verbatim>\<open>handleSpeakAi\<close>\<close>

datatype outcome = Resolved | Rejected

text \<open>The two callbacks that \<^verbatim>\<open>handleSpeakAi\<close> hands to \<^verbatim>\<open>speakCharacter\<close>.\<close>

datatype playback = Playback_started | Playback_ended

datatype obs =
    Speaking_set bool
  | Playing_set bool
  | Speak_called dispatch
  | Speak_error_logged
  | Dispatch_settled dispatch

text \<open>
  The React state of the page that matters here, the calls of \<^verbatim>\<open>handleSpeakAi\<close>
  whose promise has not settled yet, and what has happened so far, in order.
\<close>

record home_state =
  chatProcessing :: bool
  isPlayingAudio :: bool
  isAISpeaking :: bool
  assistantMessage :: js_string
  pending :: "dispatch list"
  events :: "obs list"

definition new_home :: home_state where
  "new_home = \<lparr>chatProcessing = False, isPlayingAudio = False, isAISpeaking = False,
     assistantMessage = [], pending = [], events = []\<rparr>"

text \<open>
  \<^verbatim>\<open>handleSpeakAi\<close> is an \<^verbatim>\<open>async\<close> function. A call runs at once up to its
  \<^verbatim>\<open>await\<close>: it sets the flag (line 140) and calls \<^verbatim>\<open>speakCharacter\<close>.
\<close>

definition speak_call :: "dispatch \<Rightarrow> home_state \<Rightarrow> home_state" where
  "speak_call d a =
     a\<lparr>isAISpeaking := True, pending := pending a @ [d],
       events := events a @ [Speaking_set True, Speak_called d]\<rparr>"

text \<open>The two callbacks (lines 147 to 156); \<^verbatim>\<open>onEnd\<close> is not given by the caller.\<close>

definition playback_callback :: "dispatch \<Rightarrow> home_state \<Rightarrow> playback \<Rightarrow> home_state" where
  "playback_callback d a p =
     (case p of
        Playback_started \<Rightarrow>
          a\<lparr>isPlayingAudio := True, assistantMessage := shown d,
            events := events a @ [Playing_set True]\<rparr>
      | Playback_ended \<Rightarrow>
          a\<lparr>isPlayingAudio := False, events := events a @ [Playing_set False]\<rparr>)"

text \<open>
  When the promise of \<^verbatim>\<open>speakCharacter\<close> settles, the call goes on after its
  \<^verbatim>\<open>await\<close>: the \<^verbatim>\<open>catch\<close> block logs a rejection, the \<^verbatim>\<open>finally\<close> block
  resets the flag, and the promise of \<^verbatim>\<open>handleSpeakAi\<close> itself settles with the
  outcome returned here.
\<close>

definition speak_settle :: "dispatch \<Rightarrow> outcome \<Rightarrow> home_state \<Rightarrow> home_state \<times> outcome" where
  "speak_settle d r a =
     (let (a1, r1) = (case r of
                        Resolved \<Rightarrow> (a, Resolved)
                      | Rejected \<Rightarrow> (a\<lparr>events := events a @ [Speak_error_logged]\<rparr>, Resolved));
          a2 = a1\<lparr>isAISpeaking := False, pending := remove1 d (pending a1),
                 events := events a1 @ [Speaking_set False, Dispatch_settled d]\<rparr>
      in (a2, r1))"

text \<open>
  A whole call, with nothing else running in between: \<^verbatim>\<open>speakCharacter\<close> is not
  part of the sources, so what it does in one call is a parameter: the callbacks it
  invokes, in order, and how its promise settles.
\<close>

definition handleSpeakAi ::
  "dispatch \<Rightarrow> playback list \<times> outcome \<Rightarrow> home_state \<Rightarrow> home_state \<times> outcome" where
  "handleSpeakAi d sp a =
     speak_settle d (snd sp) (foldl (playback_callback d) (speak_call d a) (fst sp))"

text \<open>
  A chat turn as the event loop runs it. \<^verbatim>\<open>handleSendChat\<close> calls
  \<^verbatim>\<open>handleSpeakAi\<close> without \<^verbatim>\<open>await\<close> (line 266) and goes back to
  \<^verbatim>\<open>await reader.read()\<close>, so what happens next is the environment's choice: the
  next chunk arrives, or a callback of a pending call runs, or the promise of a pending
  \<^verbatim>\<open>speakCharacter\<close> call settles.
\<close>

datatype turn_event =
    Chunk js_string
  | Playback dispatch playback
  | Speech_settles dispatch outcome

record chat =
  turn :: turn_state
  home :: home_state

definition new_chat :: chat where
  "new_chat = \<lparr>turn = new_turn, home = new_home\<lparr>chatProcessing := True\<rparr>\<rparr>"

definition chat_step :: "chat \<Rightarrow> turn_event \<Rightarrow> chat" where
  "chat_step c e =
     (case e of
        Chunk v \<Rightarrow>
          (let t' = process_chunk (turn c) v;
               calls = drop (length (dispatched (turn c))) (dispatched t')
           in c\<lparr>turn := t', home := foldl (\<lambda>a d. speak_call d a) (home c) calls\<rparr>)
      | Playback d p \<Rightarrow>
          if d \<in> set (pending (home c)) then c\<lparr>home := playback_callback d (home c) p\<rparr>
          else c
      | Speech_settles d r \<Rightarrow>
          if d \<in> set (pending (home c)) then c\<lparr>home := fst (speak_settle d r (home c))\<rparr>
          else c)"

definition run_chat :: "chat \<Rightarrow> turn_event list \<Rightarrow> chat" where
  "run_chat c es = foldl chat_step c es"

text \<open>
  No call of \<^verbatim>\<open>speakCharacter\<close> is made while \<open>n\<close> or more earlier calls of
  \<^verbatim>\<open>handleSpeakAi\<close> have not settled: the reading of "the caller never issues a
  second dispatch before the previous dispatch call settles" on a trace, with \<open>n\<close> the
  number of unsettled calls at its start.
\<close>

fun one_at_a_time :: "nat \<Rightarrow> obs list \<Rightarrow> bool" where
  "one_at_a_time n [] = True"
| "one_at_a_time n (Speak_called d # tr) = (n = 0 \<and> one_at_a_time (Suc n) tr)"
| "one_at_a_time n (Dispatch_settled d # tr) = one_at_a_time (n - 1) tr"
| "one_at_a_time n (Speaking_set b # tr) = one_at_a_time n tr"
| "one_at_a_time n (Playing_set b # tr) = one_at_a_time n tr"
| "one_at_a_time n (Speak_error_logged # tr) = one_at_a_time n tr"

text \<open>The calls of \<^verbatim>\<open>speakCharacter\<close> in a trace, in order.\<close>

fun speak_calls :: "obs list \<Rightarrow> dispatch list" where
  "speak_calls [] = []"
| "speak_calls (Speak_called d # tr) = d # speak_calls tr"
| "speak_calls (Dispatch_settled d # tr) = speak_calls tr"
| "speak_calls (Speaking_set b # tr) = speak_calls tr"
| "speak_calls (Playing_set b # tr) = speak_calls tr"
| "speak_calls (Speak_error_logged # tr) = speak_calls tr"

text \<open>The chunks among the events of a turn, in order.\<close>

fun chunks_of :: "turn_event list \<Rightarrow> js_string list" where
  "chunks_of [] = []"
| "chunks_of (Chunk v # es) = v # chunks_of es"
| "chunks_of (Playback d p # es) = chunks_of es"
| "chunks_of (Speech_settles d r # es) = chunks_of es"

text \<open>The extracted units that pass the test of lines 251 to 258, in the order of extraction.\<close>

definition speakable :: "js_string list \<Rightarrow> js_string list" where
  "speakable ss = filter (\<lambda>s. replace_brackets s \<noteq> []) ss"

section \<open>The busy gate of the LLM callback\<close>

text \<open>How the awaited call \<^verbatim>\<open>handleSendChat(message)\<close> ends (lines 306 to 315).\<close>

datatype completion = Returns | Throws_Error js_string | Throws_other

record llm_result =
  processed :: bool
  error :: "js_string option"

text \<open>\<open>handed\<close> is the message passed on to \<^verbatim>\<open>handleSendChat\<close>, if it was called.\<close>

record llm_call =
  handed :: "js_string option"
  result :: llm_result

text \<open>
  The callback given to \<^verbatim>\<open>websocketService.setLLMCallback\<close> (lines 296 to 317). The
  effect that installs it lists the three flags among its dependencies, so the callback
  in place reads the flags of the latest render.
\<close>

definition llm_callback :: "home_state \<Rightarrow> completion \<Rightarrow> js_string \<Rightarrow> llm_call" where
  "llm_callback a h message =
     (if isAISpeaking a \<or> isPlayingAudio a \<or> chatProcessing a
      then \<lparr>handed = None,
            result = \<lparr>processed = False,
                      error = Some (ascii ''System is busy processing previous message'')\<rparr>\<rparr>
      else
        \<lparr>handed = Some message,
         result =
           (case h of
              Returns \<Rightarrow> \<lparr>processed = True, error = None\<rparr>
            | Throws_Error m \<Rightarrow> \<lparr>processed = False, error = Some m\<rparr>
            | Throws_other \<Rightarrow>
                \<lparr>processed = False, error = Some (ascii ''Unknown error occurred'')\<rparr>)\<rparr>)"

section \<open>The command channel client: \<^verbatim>\<open>AvatarClient\<close>\<close>

datatype ready_state = CONNECTING | OPEN | CLOSING | CLOSED

text \<open>
  A \<^verbatim>\<open>WebSocket\<close> object of the browser: its ready state, and for each of its four
  handler properties whether the handler that \<^verbatim>\<open>connect\<close> installs is in place
  (\<open>False\<close> is \<^verbatim>\<open>null\<close>).
\<close>

record socket =
  readyState :: ready_state
  onopen :: bool
  onmessage :: bool
  onerror :: bool
  onclose :: bool

text \<open>
  The frames the page sends: the identification of \<^verbatim>\<open>onopen\<close>, and the status reply
  with its \<^verbatim>\<open>connected\<close>, \<^verbatim>\<open>speaking\<close> and \<^verbatim>\<open>expression\<close> fields.
\<close>

datatype frame = Identify | Status bool bool js_string

text \<open>The \<^verbatim>\<open>type\<close> of a decoded command, as the \<^verbatim>\<open>switch\<close> of the page reads it.\<close>

datatype command =
    Speak | StartSpeaking | SetExpression | UpdateExpression | SetIdle | GetStatus
  | IdentifyAck | InitialState | Unknown

text \<open>What the client does to the world outside of its own fields, in order.\<close>

datatype effect =
    Socket_created nat
  | Frame_sent nat frame
  | Connection_notified bool
  | Timer_set nat nat
  | Timer_cleared nat
  | Handlers_detached nat
  | Socket_closed nat

text \<open>
  The fields of the object, and the part of the browser it works on: the sockets ever
  created (\<open>ws\<close> refers to one by its index), the timeouts that are set and have
  neither fired nor been cleared, each with its handle and delay, and the next handle.
  A handle of \<^verbatim>\<open>setTimeout\<close> is truthy (a positive number in a browser, an object in
  Node), so \<^verbatim>\<open>if (this.reconnectTimer)\<close> asks whether the field is not
  \<^verbatim>\<open>null\<close>. \<open>url_ok\<close> says whether \<^verbatim>\<open>new WebSocket(this.url)\<close> returns
  rather than throws.
\<close>

record client =
  ws :: "nat option"
  reconnectTimer :: "nat option"
  connected :: bool
  destroyed :: bool
  sockets :: "socket list"
  timers :: "(nat \<times> nat) list"
  next_timer :: nat
  url_ok :: bool
  effects :: "effect list"

definition reconnectInterval :: nat where
  "reconnectInterval = 5000"

definition new_client :: "bool \<Rightarrow> client" where
  "new_client ok =
     \<lparr>ws = None, reconnectTimer = None, connected = False, destroyed = False,
      sockets = [], timers = [], next_timer = 1, url_ok = ok, effects = []\<rparr>"

text \<open>\<^verbatim>\<open>this.ws?.readyState\<close>\<close>

definition ws_state :: "client \<Rightarrow> ready_state option" where
  "ws_state c =
     (case ws c of
        None \<Rightarrow> None
      | Some i \<Rightarrow> if i < length (sockets c) then Some (readyState (sockets c ! i)) else None)"

definition clearTimeout :: "nat \<Rightarrow> client \<Rightarrow> client" where
  "clearTimeout t c =
     c\<lparr>timers := filter (\<lambda>x. fst x \<noteq> t) (timers c), effects := effects c @ [Timer_cleared t]\<rparr>"

definition scheduleReconnect :: "client \<Rightarrow> client" where
  "scheduleReconnect c =
     (if reconnectTimer c \<noteq> None then c
      else c\<lparr>reconnectTimer := Some (next_timer c),
             timers := timers c @ [(next_timer c, reconnectInterval)],
             next_timer := Suc (next_timer c),
             effects := effects c @ [Timer_set (next_timer c) reconnectInterval]\<rparr>)"

definition connect :: "client \<Rightarrow> client" where
  "connect c =
     (if destroyed c then c
      else if ws_state c = Some OPEN then c
      else if url_ok c then
        c\<lparr>ws := Some (length (sockets c)),
          sockets := sockets c @
            [\<lparr>readyState = CONNECTING, onopen = True, onmessage = True, onerror = True,
              onclose = True\<rparr>],
          effects := effects c @ [Socket_created (length (sockets c))]\<rparr>
      else scheduleReconnect c)"

text \<open>Lines 110 to 113 of \<^verbatim>\<open>disconnect\<close>: the four handlers of a socket are set to null.\<close>

definition detach :: "nat \<Rightarrow> client \<Rightarrow> client" where
  "detach i c =
     (if i < length (sockets c) then
        c\<lparr>sockets := (sockets c)
             [i := (sockets c ! i)\<lparr>onopen := False, onclose := False, onerror := False,
                                  onmessage := False\<rparr>],
          effects := effects c @ [Handlers_detached i]\<rparr>
      else c)"

text \<open>
  \<^verbatim>\<open>ws.close()\<close>: a socket that is connecting or open starts closing; the browser
  delivers the close event later.
\<close>

definition close_socket :: "nat \<Rightarrow> client \<Rightarrow> client" where
  "close_socket i c =
     (if i < length (sockets c) then
        c\<lparr>sockets := (sockets c)
             [i := (sockets c ! i)
                \<lparr>readyState :=
                   (if readyState (sockets c ! i) \<in> {CONNECTING, OPEN} then CLOSING
                    else readyState (sockets c ! i))\<rparr>],
          effects := effects c @ [Socket_closed i]\<rparr>
      else c)"

definition disconnect :: "client \<Rightarrow> client" where
  "disconnect c =
     (let c1 = c\<lparr>destroyed := True\<rparr>;
          c2 = (case reconnectTimer c1 of
                  None \<Rightarrow> c1
                | Some t \<Rightarrow> (clearTimeout t c1)\<lparr>reconnectTimer := None\<rparr>);
          c3 = (case ws c2 of
                  None \<Rightarrow> c2
                | Some i \<Rightarrow> (close_socket i (detach i c2))\<lparr>ws := None\<rparr>)
      in c3\<lparr>connected := False\<rparr>)"

definition isConnected :: "client \<Rightarrow> bool" where
  "isConnected c \<longleftrightarrow> connected c \<and> ws_state c = Some OPEN"

definition send :: "client \<Rightarrow> frame \<Rightarrow> client" where
  "send c f =
     (if \<not> isConnected c then c
      else case ws c of
             None \<Rightarrow> c
           | Some i \<Rightarrow> c\<lparr>effects := effects c @ [Frame_sent i f]\<rparr>)"

text \<open>The connection handlers are callbacks of the caller; each runs in its own \<^verbatim>\<open>try\<close>.\<close>

definition notifyConnectionChange :: "bool \<Rightarrow> client \<Rightarrow> client" where
  "notifyConnectionChange b c = c\<lparr>effects := effects c @ [Connection_notified b]\<rparr>"

text \<open>
  A command handler is a callback of the caller. The one the page registers uses the
  client only through \<^verbatim>\<open>send\<close>, so a handler is modelled by the frames it sends for
  a command.
\<close>

type_synonym handler = "command \<Rightarrow> frame list"

definition handleCommand :: "handler list \<Rightarrow> client \<Rightarrow> command \<Rightarrow> client" where
  "handleCommand hs c cmd = foldl send c (concat (map (\<lambda>h. h cmd) hs))"

text \<open>
  The handler that \<^verbatim>\<open>connect\<close> installs as \<^verbatim>\<open>onopen\<close> (lines 61 to 72). It
  sends on \<^verbatim>\<open>this.ws\<close>, the socket the client refers to when the handler runs; a
  \<^verbatim>\<open>send\<close> on a socket that is still connecting throws out of the handler, on a
  closing or closed one it is dropped.
\<close>

definition on_open :: "client \<Rightarrow> client" where
  "on_open c =
     (let c1 = notifyConnectionChange True (c\<lparr>connected := True\<rparr>);
          c2 = (case reconnectTimer c1 of
                  None \<Rightarrow> c1
                | Some t \<Rightarrow> (clearTimeout t c1)\<lparr>reconnectTimer := None\<rparr>)
      in case ws c2 of
           None \<Rightarrow> c2
         | Some i \<Rightarrow>
             if ws_state c2 = Some OPEN then c2\<lparr>effects := effects c2 @ [Frame_sent i Identify]\<rparr>
             else c2)"

text \<open>The handler installed as \<^verbatim>\<open>onclose\<close> (lines 88 to 93).\<close>

definition on_close :: "client \<Rightarrow> client" where
  "on_close c = scheduleReconnect (notifyConnectionChange False (c\<lparr>connected := False\<rparr>))"

text \<open>
  The handler installed as \<^verbatim>\<open>onmessage\<close> (lines 74 to 82); \<open>None\<close> is a frame
  that \<^verbatim>\<open>JSON.parse\<close> rejects.
\<close>

definition on_message :: "handler list \<Rightarrow> client \<Rightarrow> command option \<Rightarrow> client" where
  "on_message hs c data = (case data of None \<Rightarrow> c | Some cmd \<Rightarrow> handleCommand hs c cmd)"

definition set_ready :: "nat \<Rightarrow> ready_state \<Rightarrow> client \<Rightarrow> client" where
  "set_ready i r c = c\<lparr>sockets := (sockets c)[i := (sockets c ! i)\<lparr>readyState := r\<rparr>]\<rparr>"

text \<open>
  What can happen to a client: a call of one of its public methods, an event of one of
  the sockets, or a timeout that fires. The browser opens only a connecting socket,
  closes only a socket that is not closed yet, delivers messages only on an open socket,
  and fires only a timeout that is set; any other event leaves everything as it is. A
  timeout that fires is no longer set, and runs lines 173 and 174.
\<close>

datatype event =
    Call_connect
  | Call_disconnect
  | Call_send frame
  | Socket_opens nat
  | Socket_message nat "command option"
  | Socket_error nat
  | Socket_closes nat
  | Timer_fires nat

definition step :: "handler list \<Rightarrow> client \<Rightarrow> event \<Rightarrow> client" where
  "step hs c e =
     (case e of
        Call_connect \<Rightarrow> connect c
      | Call_disconnect \<Rightarrow> disconnect c
      | Call_send f \<Rightarrow> send c f
      | Socket_opens i \<Rightarrow>
          if i < length (sockets c) \<and> readyState (sockets c ! i) = CONNECTING then
            (if onopen (sockets c ! i) then on_open (set_ready i OPEN c)
             else set_ready i OPEN c)
          else c
      | Socket_message i data \<Rightarrow>
          if i < length (sockets c) \<and> readyState (sockets c ! i) = OPEN
             \<and> onmessage (sockets c ! i)
          then on_message hs c data else c
      | Socket_error i \<Rightarrow> c
      | Socket_closes i \<Rightarrow>
          if i < length (sockets c) \<and> readyState (sockets c ! i) \<noteq> CLOSED then
            (if onclose (sockets c ! i) then on_close (set_ready i CLOSED c)
             else set_ready i CLOSED c)
          else c
      | Timer_fires t \<Rightarrow>
          if t \<in> fst ` set (timers c) then
            connect (c\<lparr>timers := filter (\<lambda>x. fst x \<noteq> t) (timers c), reconnectTimer := None\<rparr>)
          else c)"

definition run :: "handler list \<Rightarrow> client \<Rightarrow> event list \<Rightarrow> client" where
  "run hs c es = foldl (step hs) c es"

text \<open>
  What holds of a client whatever happens to it: the timeouts that are set are the one
  the field \<open>reconnectTimer\<close> refers to, if any, with the delay of the client; and
  \<open>ws\<close> refers to a socket that exists.
\<close>

definition client_inv :: "client \<Rightarrow> bool" where
  "client_inv c \<longleftrightarrow>
     timers c = (case reconnectTimer c of None \<Rightarrow> [] | Some t \<Rightarrow> [(t, reconnectInterval)])
     \<and> (case ws c of None \<Rightarrow> True | Some i \<Rightarrow> i < length (sockets c))"

text \<open>Socket \<open>i\<close> has none of the four handlers.\<close>

definition detached :: "nat \<Rightarrow> client \<Rightarrow> bool" where
  "detached i c \<longleftrightarrow>
     i < length (sockets c) \<and> \<not> onopen (sockets c ! i) \<and> \<not> onmessage (sockets c ! i)
     \<and> \<not> onerror (sockets c ! i) \<and> \<not> onclose (sockets c ! i)"

section \<open>The command handler of the page\<close>

text \<open>
  The \<^verbatim>\<open>getStatus\<close> case of the handler (lines 398 to 407). The handler is a closure
  made inside the component function, so \<^verbatim>\<open>isAISpeaking\<close> in it is the constant of
  the render that made it: \<open>speaking\<close> here. The other cases work on the viewer
  only and send nothing.
\<close>

definition command_handler :: "bool \<Rightarrow> handler" where
  "command_handler speaking cmd =
     (case cmd of
        GetStatus \<Rightarrow> [Status True speaking (ascii ''neutral'')]
      | _ \<Rightarrow> [])"

text \<open>
  The page: its React state, the client in \<^verbatim>\<open>avatarClient.current\<close> (a fresh one
  stands for \<^verbatim>\<open>null\<close>), and the value of \<^verbatim>\<open>isAISpeaking\<close> that the registered
  handler closes over (\<open>None\<close> before the effect has run).
\<close>

record page =
  state :: home_state
  avatar :: client
  captured :: "bool option"

definition new_page :: page where
  "new_page = \<lparr>state = new_home, avatar = new_client True, captured = None\<rparr>"

text \<open>
  The effect of lines 327 to 438. React runs it after the first render and after a
  render in which \<^verbatim>\<open>viewer\<close>, its only dependency, has changed; \<^verbatim>\<open>viewer\<close> is the
  value of a context that never changes. It makes the client, registers the handler of
  the current render, and connects.
\<close>

definition avatar_effect :: "page \<Rightarrow> page" where
  "avatar_effect p =
     (if captured p = None then
        p\<lparr>captured := Some (isAISpeaking (state p)), avatar := connect (new_client True)\<rparr>
      else p)"

text \<open>
  \<^verbatim>\<open>setIsAISpeaking(b)\<close>: the state changes and the component renders again. The
  dependency of the effect above is unchanged, so the effect does not run again and the
  handler registered before stays in place.
\<close>

definition setIsAISpeaking :: "bool \<Rightarrow> page \<Rightarrow> page" where
  "setIsAISpeaking b p = p\<lparr>state := (state p)\<lparr>isAISpeaking := b\<rparr>\<rparr>"

definition page_handlers :: "page \<Rightarrow> handler list" where
  "page_handlers p = (case captured p of None \<Rightarrow> [] | Some b \<Rightarrow> [command_handler b])"

text \<open>An event of the client of the page.\<close>

definition page_event :: "page \<Rightarrow> event \<Rightarrow> page" where
  "page_event p e = p\<lparr>avatar := step (page_handlers p) (avatar p) e\<rparr>"

section \<open>Properties of the matchers\<close>

lemma one_Some_iff:
  "one p k s = Some r \<longleftrightarrow> (\<exists>c cs. s = c # cs \<and> p c \<and> k cs = Some r)"
  by (cases s) auto

lemma greedy_star_sound:
  "greedy_star p k s = Some r \<Longrightarrow> \<exists>u v. s = u @ v \<and> list_all p u \<and> k v = Some r"
proof (induction s)
  case Nil
  then show ?case by simp
next
  case (Cons c cs)
  show ?case
  proof (cases "p c \<and> greedy_star p k cs \<noteq> None")
    case True
    with Cons.prems have "greedy_star p k cs = Some r" by auto
    from Cons.IH [OF this] obtain u v where "cs = u @ v" "list_all p u" "k v = Some r"
      by blast
    with True have "c # cs = (c # u) @ v \<and> list_all p (c # u) \<and> k v = Some r" by simp
    then show ?thesis by blast
  next
    case False
    with Cons.prems have "k (c # cs) = Some r" by (auto split: if_splits option.splits)
    then have "c # cs = [] @ (c # cs) \<and> list_all p [] \<and> k (c # cs) = Some r" by simp
    then show ?thesis by blast
  qed
qed

lemma greedy_star_complete:
  "list_all p u \<Longrightarrow> k v \<noteq> None \<Longrightarrow> greedy_star p k (u @ v) \<noteq> None"
proof (induction u)
  case Nil
  then show ?case by (cases v) (auto split: option.splits)
next
  case (Cons c u)
  then show ?case by (auto split: option.splits)
qed

lemma lazy_star_sound:
  "lazy_star p k s = Some r \<Longrightarrow> \<exists>u v. s = u @ v \<and> list_all p u \<and> k v = Some r"
proof (induction s)
  case Nil
  then show ?case by simp
next
  case (Cons c cs)
  show ?case
  proof (cases "k (c # cs)")
    case (Some r')
    with Cons.prems have "k (c # cs) = Some r" by simp
    then have "c # cs = [] @ (c # cs) \<and> list_all p [] \<and> k (c # cs) = Some r" by simp
    then show ?thesis by blast
  next
    case None
    with Cons.prems have pc: "p c" and "lazy_star p k cs = Some r"
      by (auto split: if_splits)
    from Cons.IH [OF this(2)] obtain u v where "cs = u @ v" "list_all p u" "k v = Some r"
      by blast
    with pc have "c # cs = (c # u) @ v \<and> list_all p (c # u) \<and> k v = Some r" by simp
    then show ?thesis by blast
  qed
qed

lemma exactly_Some_iff:
  "exactly n p k s = Some r \<longleftrightarrow>
     (\<exists>u v. s = u @ v \<and> length u = n \<and> list_all p u \<and> k v = Some r)"
proof (induction n arbitrary: s)
  case 0
  then show ?case by simp
next
  case (Suc n)
  show ?case
  proof
    assume "exactly (Suc n) p k s = Some r"
    then obtain c cs where s: "s = c # cs" "p c" "exactly n p k cs = Some r"
      by (auto simp: one_Some_iff)
    with Suc.IH obtain u v where "cs = u @ v" "length u = n" "list_all p u" "k v = Some r"
      by blast
    with s have "s = (c # u) @ v \<and> length (c # u) = Suc n \<and> list_all p (c # u) \<and> k v = Some r"
      by simp
    then show "\<exists>u v. s = u @ v \<and> length u = Suc n \<and> list_all p u \<and> k v = Some r"
      by blast
  next
    assume "\<exists>u v. s = u @ v \<and> length u = Suc n \<and> list_all p u \<and> k v = Some r"
    then obtain u v where uv: "s = u @ v" "length u = Suc n" "list_all p u" "k v = Some r"
      by blast
    then obtain c u' where u: "u = c # u'" by (cases u) auto
    with uv Suc.IH [of "u' @ v"] have "exactly n p k (u' @ v) = Some r" by auto
    with u uv show "exactly (Suc n) p k s = Some r" by simp
  qed
qed

text \<open>What a matcher leaves is a suffix of its input, so \<open>js_match\<close> returns the prefix.\<close>

lemma js_match_prefix:
  "re s = Some r \<Longrightarrow> s = u @ r \<Longrightarrow> js_match re s = Some u"
  by (simp add: js_match_def)

subsection \<open>The sentence pattern\<close>

lemma sentence_re_sound:
  assumes "sentence_re s = Some r"
  shows "\<exists>u. s = u @ r \<and> (sentence_unit u \<or> comma_unit u)"
proof (cases "one dot (greedy_star dot (one is_sentence_end Some)) s")
  case (Some r')
  with assms have "one dot (greedy_star dot (one is_sentence_end Some)) s = Some r"
    by (simp add: sentence_re_def alt_def)
  then obtain c cs where s: "s = c # cs" "dot c"
    and "greedy_star dot (one is_sentence_end Some) cs = Some r"
    by (auto simp: one_Some_iff)
  from greedy_star_sound [OF this(3)] obtain u v
    where cs: "cs = u @ v" "list_all dot u" "one is_sentence_end Some v = Some r"
    by blast
  then obtain t where v: "v = t # r" "is_sentence_end t"
    by (auto simp: one_Some_iff)
  have "s = (c # u @ [t]) @ r" using s cs v by simp
  moreover have "sentence_unit (c # u @ [t])"
    using s cs v by (simp add: sentence_unit_def butlast_append)
  ultimately show ?thesis by blast
next
  case None
  with assms have "exactly 10 dot (greedy_star dot (one is_comma Some)) s = Some r"
    by (simp add: sentence_re_def alt_def)
  then obtain u v where s: "s = u @ v" "length u = 10" "list_all dot u"
    and "greedy_star dot (one is_comma Some) v = Some r"
    by (auto simp: exactly_Some_iff)
  from greedy_star_sound [OF this(4)] obtain u' v'
    where v: "v = u' @ v'" "list_all dot u'" "one is_comma Some v' = Some r"
    by blast
  then obtain t where v': "v' = t # r" "is_comma t"
    by (auto simp: one_Some_iff)
  have "s = (u @ u' @ [t]) @ r" using s v v' by simp
  moreover have "comma_unit (u @ u' @ [t])"
    using s v v' by (simp add: comma_unit_def butlast_append)
  ultimately show ?thesis by blast
qed

lemma sentence_unit_matches:
  assumes "sentence_unit u"
  shows "one dot (greedy_star dot (one is_sentence_end Some)) (u @ r) \<noteq> None"
proof -
  from assms obtain c body where b: "butlast u = c # body" "u \<noteq> []"
    by (cases "butlast u") (auto simp: sentence_unit_def)
  then have u: "u = c # body @ [last u]"
    using append_butlast_last_id [of u] by simp
  have "dot c" "list_all dot body" "is_sentence_end (last u)"
    using assms b by (auto simp: sentence_unit_def)
  then have "greedy_star dot (one is_sentence_end Some) (body @ (last u # r)) \<noteq> None"
    by (intro greedy_star_complete) auto
  with \<open>dot c\<close> show ?thesis by (subst u) simp
qed

lemma comma_unit_matches:
  assumes "comma_unit u"
  shows "exactly 10 dot (greedy_star dot (one is_comma Some)) (u @ r) \<noteq> None"
proof -
  let ?b = "butlast u"
  from assms have "u \<noteq> []" by (simp add: comma_unit_def)
  have eq: "take 10 ?b @ (drop 10 ?b @ (last u # r)) = u @ r"
  proof -
    have "take 10 ?b @ (drop 10 ?b @ (last u # r)) = (take 10 ?b @ drop 10 ?b) @ ([last u] @ r)"
      by simp
    also have "\<dots> = ?b @ ([last u] @ r)" by (simp only: append_take_drop_id)
    also have "\<dots> = u @ r" using \<open>u \<noteq> []\<close> by simp
    finally show ?thesis .
  qed
  have len: "length (take 10 ?b) = 10" using assms by (simp add: comma_unit_def)
  have d1: "list_all dot (take 10 ?b)" and d2: "list_all dot (drop 10 ?b)"
    using assms unfolding comma_unit_def list_all_iff
    by (auto dest: in_set_takeD in_set_dropD)
  have "is_comma (last u)" using assms by (simp add: comma_unit_def)
  with d2 have "greedy_star dot (one is_comma Some) (drop 10 ?b @ (last u # r)) \<noteq> None"
    by (intro greedy_star_complete) auto
  then obtain r' where "greedy_star dot (one is_comma Some) (drop 10 ?b @ (last u # r)) = Some r'"
    by blast
  with len d1 have "exactly 10 dot (greedy_star dot (one is_comma Some))
      (take 10 ?b @ (drop 10 ?b @ (last u # r))) = Some r'"
    unfolding exactly_Some_iff by blast
  then show ?thesis by (simp only: eq) simp
qed

lemma sentence_re_complete:
  assumes "has_unit s"
  shows "sentence_re s \<noteq> None"
proof -
  from assms obtain n where "sentence_unit (take n s) \<or> comma_unit (take n s)"
    by (auto simp: has_unit_def)
  then show ?thesis
  proof
    assume "sentence_unit (take n s)"
    from sentence_unit_matches [OF this, of "drop n s"]
    show ?thesis by (auto simp: sentence_re_def alt_def)
  next
    assume "comma_unit (take n s)"
    from comma_unit_matches [OF this, of "drop n s"]
    show ?thesis by (auto simp: sentence_re_def alt_def split: option.splits)
  qed
qed

lemma has_unit_prefix:
  "sentence_unit u \<or> comma_unit u \<Longrightarrow> has_unit (u @ r)"
  unfolding has_unit_def by (rule bexI [of _ "length u"]) auto



lemma extract_sentence_Some:
  assumes "has_unit buf"
  shows "\<exists>u r. buf = u @ r \<and> (sentence_unit u \<or> comma_unit u)
           \<and> extract_sentence buf = (Some u, trimStart r)"
proof -
  from sentence_re_complete [OF assms] obtain r where r: "sentence_re buf = Some r" by blast
  from sentence_re_sound [OF this] obtain u
    where u: "buf = u @ r" "sentence_unit u \<or> comma_unit u" by blast
  then have "u \<noteq> []" by (auto simp: sentence_unit_def comma_unit_def)
  moreover have "js_match sentence_re buf = Some u" using r u by (rule_tac js_match_prefix) 
  ultimately have "extract_sentence buf = (Some u, trimStart r)"
    using u by (simp add: extract_sentence_def slice_def)
  with u show ?thesis by blast
qed

lemma extract_sentence_None:
  assumes "\<not> has_unit buf"
  shows "extract_sentence buf = (None, buf)"
proof (cases "sentence_re buf")
  case None
  then show ?thesis by (simp add: extract_sentence_def js_match_def)
next
  case (Some r)
  from sentence_re_sound [OF this] obtain u
    where "buf = u @ r" "sentence_unit u \<or> comma_unit u" by blast
  with has_unit_prefix [of u r] assms show ?thesis by simp
qed


subsection \<open>Evaluating the patterns on examples\<close>

lemmas class_defs = dot_def is_line_terminator_def is_sentence_end_def is_comma_def

lemma exactly_numeral:
  "exactly (numeral n) p k s = one p (exactly (pred_numeral n) p k) s"
  by (simp add: numeral_eq_Suc)

lemma ex1_re: "sentence_re (ascii ''Hello world. '') = Some (ascii '' '')"
  by (simp add: sentence_re_def alt_def class_defs ascii_def)


lemma ex3_re: "sentence_re (ascii ''Hello world, and so on'') = Some (ascii '' and so on'')"
  by (simp add: sentence_re_def alt_def class_defs ascii_def exactly_numeral)

lemma ex1: "extract_sentence (ascii ''Hello world. '') = (Some (ascii ''Hello world.''), [])"
proof -
  have "js_match sentence_re (ascii ''Hello world. '') = Some (ascii ''Hello world.'')"
    using ex1_re by (rule js_match_prefix) (simp add: ascii_def)
  then show ?thesis
    by (simp add: extract_sentence_def slice_def trimStart_def is_space_def ascii_def)
qed



section \<open>The tag and the unspeakable units\<close>

lemma tag_re_sound:
  assumes "tag_re s = Some r"
  shows "\<exists>body. s = (0x5B # body @ [0x5D]) @ r \<and> list_all dot body"
proof -
  from assms obtain cs where s: "s = 0x5B # cs"
    and "lazy_star dot (one (\<lambda>c. c = 0x5D) Some) cs = Some r"
    by (auto simp: tag_re_def one_Some_iff)
  from lazy_star_sound [OF this(2)] obtain u v
    where "cs = u @ v" "list_all dot u" "one (\<lambda>c. c = 0x5D) Some v = Some r"
    by blast
  with s have "s = (0x5B # u @ [0x5D]) @ r \<and> list_all dot u"
    by (auto simp: one_Some_iff)
  then show ?thesis by blast
qed

lemma js_match_tag:
  assumes "js_match tag_re s = Some tg"
  shows "\<exists>body rest. tg = 0x5B # body @ [0x5D] \<and> list_all dot body \<and> s = tg @ rest"
proof -
  from assms obtain r where r: "tag_re s = Some r" and tg: "tg = take (length s - length r) s"
    by (auto simp: js_match_def split: option.splits)
  from tag_re_sound [OF r] obtain body
    where "s = (0x5B # body @ [0x5D]) @ r" "list_all dot body" by blast
  with tg have "tg = 0x5B # body @ [0x5D] \<and> list_all dot body \<and> s = tg @ r" by simp
  then show ?thesis by blast
qed

lemma strip_tag_Some:
  assumes "js_match tag_re s = Some tg"
  shows "\<exists>rest. s = tg @ rest \<and> strip_tag t s = (tg, rest)"
proof -
  from js_match_tag [OF assms] obtain rest where "tg \<noteq> []" "s = tg @ rest" by blast
  with assms have "s = tg @ rest \<and> strip_tag t s = (tg, rest)"
    by (simp add: strip_tag_def slice_def)
  then show ?thesis by blast
qed

lemma strip_tag_None: "js_match tag_re s = None \<Longrightarrow> strip_tag t s = (t, s)"
  by (simp add: strip_tag_def)

lemma extract_sentence_cases:
  "extract_sentence buf = (None, buf)
   \<or> (\<exists>u r. u \<noteq> [] \<and> buf = u @ r \<and> extract_sentence buf = (Some u, trimStart r))"
proof (cases "has_unit buf")
  case True
  from extract_sentence_Some [OF this] obtain u r
    where "buf = u @ r" "sentence_unit u \<or> comma_unit u"
      "extract_sentence buf = (Some u, trimStart r)" by blast
  moreover from this have "u \<noteq> []" by (auto simp: sentence_unit_def comma_unit_def)
  ultimately show ?thesis by blast
next
  case False
  then show ?thesis by (simp add: extract_sentence_None)
qed

lemma greedy_star_at_end:
  "greedy_star p at_end s = (if list_all p s then Some [] else None)"
  by (induction s) (auto simp: at_end_def)

lemma replace_brackets_empty_iff:
  "replace_brackets u = [] \<longleftrightarrow> list_all is_bracket u"
proof (cases u)
  case Nil
  then show ?thesis by (simp add: replace_brackets_def js_match_def bracket_re_def)
next
  case (Cons c cs)
  then show ?thesis
    by (simp add: replace_brackets_def js_match_def bracket_re_def greedy_star_at_end slice_def)
qed

subsection \<open>One chunk\<close>

lemma process_chunk_tag:
  "tag (process_chunk t v) = fst (strip_tag (tag t) (receivedMessage t @ v))"
  by (simp add: process_chunk_def Let_def split: prod.splits option.splits)

lemma process_chunk_sentences:
  "\<exists>ss. sentences (process_chunk t v) = sentences t @ ss"
  by (simp add: process_chunk_def Let_def split: prod.splits option.splits)

lemma process_chunk_dispatched:
  "\<exists>ds. dispatched (process_chunk t v) = dispatched t @ ds
     \<and> (\<forall>d \<in> set ds. \<exists>s \<in> set (sentences (process_chunk t v)).
            talk d = tag (process_chunk t v) @ [0x20] @ s)"
  by (simp add: process_chunk_def Let_def split: prod.splits option.splits)

subsection \<open>A run of chunks\<close>

lemma run_chunks_Cons: "run_chunks t (v # vs) = run_chunks (process_chunk t v) vs"
  by (simp add: run_chunks_def)

lemma run_chunks_sentences:
  "set (sentences t) \<subseteq> set (sentences (run_chunks t vs))"
proof (induction vs arbitrary: t)
  case Nil
  then show ?case by (simp add: run_chunks_def)
next
  case (Cons v vs)
  from process_chunk_sentences [of t v] Cons.IH [of "process_chunk t v"]
  show ?case by (auto simp: run_chunks_Cons)
qed

lemma tag_free_run:
  "tag_free t vs \<Longrightarrow>
     tag (run_chunks t vs) = tag t
     \<and> (\<exists>ds. dispatched (run_chunks t vs) = dispatched t @ ds
          \<and> (\<forall>d \<in> set ds. \<exists>s \<in> set (sentences (run_chunks t vs)).
                 talk d = tag t @ [0x20] @ s))"
proof (induction vs arbitrary: t)
  case Nil
  then show ?case by (simp add: run_chunks_def)
next
  case (Cons v vs)
  let ?t = "process_chunk t v"
  from Cons.prems have none: "js_match tag_re (receivedMessage t @ v) = None"
    and free: "tag_free ?t vs" by simp_all
  from none have tg: "tag ?t = tag t"
    by (simp add: process_chunk_tag strip_tag_None)
  from process_chunk_dispatched [of t v] obtain ds1
    where ds1: "dispatched ?t = dispatched t @ ds1"
      "\<forall>d \<in> set ds1. \<exists>s \<in> set (sentences ?t). talk d = tag ?t @ [0x20] @ s"
    by blast
  from Cons.IH [OF free] obtain ds2
    where run: "tag (run_chunks ?t vs) = tag ?t"
      and ds2: "dispatched (run_chunks ?t vs) = dispatched ?t @ ds2"
      "\<forall>d \<in> set ds2. \<exists>s \<in> set (sentences (run_chunks ?t vs)). talk d = tag ?t @ [0x20] @ s"
    by blast
  have "dispatched (run_chunks t (v # vs)) = dispatched t @ (ds1 @ ds2)"
    using ds1 ds2 by (simp add: run_chunks_Cons)
  moreover have "\<forall>d \<in> set ds1.
      \<exists>s \<in> set (sentences (run_chunks ?t vs)). talk d = tag ?t @ [0x20] @ s"
    using ds1(2) run_chunks_sentences [of ?t vs] by blast
  with ds2(2) have "\<forall>d \<in> set (ds1 @ ds2).
      \<exists>s \<in> set (sentences (run_chunks t (v # vs))). talk d = tag t @ [0x20] @ s"
    by (auto simp: run_chunks_Cons tg)
  ultimately show ?case using run tg by (auto simp: run_chunks_Cons)
qed

text \<open>
  Claim C3. When the tag pattern matches the buffer after a chunk, the matched tag is
  cut off the front of the buffer and becomes the current tag. As long as no later chunk
  makes the pattern match again, the tag stays, and the text of every dispatch made from
  that chunk on is the tag, a space, and an extracted unit. A later match replaces the
  tag.
\<close>

theorem tag_annotates_until_replaced:
  assumes "js_match tag_re (receivedMessage t @ v) = Some tg"
    and "tag_free (process_chunk t v) vs"
  shows "(\<exists>rest. receivedMessage t @ v = tg @ rest
            \<and> strip_tag (tag t) (receivedMessage t @ v) = (tg, rest))
       \<and> tag (run_chunks t (v # vs)) = tg
       \<and> (\<exists>ds. dispatched (run_chunks t (v # vs)) = dispatched t @ ds
            \<and> (\<forall>d \<in> set ds. \<exists>s \<in> set (sentences (run_chunks t (v # vs))).
                   talk d = tg @ [0x20] @ s))
       \<and> (\<forall>v' tg'. js_match tag_re (receivedMessage (run_chunks t (v # vs)) @ v') = Some tg'
            \<longrightarrow> tag (process_chunk (run_chunks t (v # vs)) v') = tg')"
proof -
  let ?t = "process_chunk t v"
  from strip_tag_Some [OF assms(1)] obtain rest
    where rest: "receivedMessage t @ v = tg @ rest"
      "strip_tag (tag t) (receivedMessage t @ v) = (tg, rest)" by blast
  then have tg: "tag ?t = tg" by (simp add: process_chunk_tag)
  from process_chunk_dispatched [of t v] obtain ds1
    where ds1: "dispatched ?t = dispatched t @ ds1"
      "\<forall>d \<in> set ds1. \<exists>s \<in> set (sentences ?t). talk d = tag ?t @ [0x20] @ s"
    by blast
  from tag_free_run [OF assms(2)] obtain ds2
    where run: "tag (run_chunks ?t vs) = tag ?t"
      and ds2: "dispatched (run_chunks ?t vs) = dispatched ?t @ ds2"
      "\<forall>d \<in> set ds2. \<exists>s \<in> set (sentences (run_chunks ?t vs)). talk d = tag ?t @ [0x20] @ s"
    by blast
  have a: "dispatched (run_chunks t (v # vs)) = dispatched t @ (ds1 @ ds2)"
    using ds1 ds2 by (simp add: run_chunks_Cons)
  have "\<forall>d \<in> set ds1.
      \<exists>s \<in> set (sentences (run_chunks ?t vs)). talk d = tag ?t @ [0x20] @ s"
    using ds1(2) run_chunks_sentences [of ?t vs] by blast
  with ds2(2) have b: "\<forall>d \<in> set (ds1 @ ds2).
      \<exists>s \<in> set (sentences (run_chunks t (v # vs))). talk d = tg @ [0x20] @ s"
    by (auto simp: run_chunks_Cons tg)
  have c: "\<forall>v' tg'. js_match tag_re (receivedMessage (run_chunks t (v # vs)) @ v') = Some tg'
            \<longrightarrow> tag (process_chunk (run_chunks t (v # vs)) v') = tg'"
  proof (intro allI impI)
    fix v' tg'
    assume "js_match tag_re (receivedMessage (run_chunks t (v # vs)) @ v') = Some tg'"
    from strip_tag_Some [OF this, of "tag (run_chunks t (v # vs))"]
    show "tag (process_chunk (run_chunks t (v # vs)) v') = tg'"
      by (auto simp: process_chunk_tag)
  qed
  from rest a b c run tg show ?thesis by (auto simp: run_chunks_Cons)
qed

text \<open>
  Claim C4. When the unit cut off the buffer consists of white space, brackets and
  quotation marks only, the chunk makes no dispatch and adds nothing to the reply log,
  but the unit is gone from the buffer, which has become shorter.
\<close>

theorem unspeakable_unit_is_skipped:
  assumes "strip_tag (tag t) (receivedMessage t @ v) = (tg, buf)"
    and "extract_sentence buf = (Some u, rest)"
    and "list_all is_bracket u"
  shows "dispatched (process_chunk t v) = dispatched t
       \<and> aiTextLog (process_chunk t v) = aiTextLog t
       \<and> receivedMessage (process_chunk t v) = rest
       \<and> (\<exists>r. buf = u @ r \<and> rest = trimStart r)
       \<and> length rest < length buf"
proof -
  from assms(2) extract_sentence_cases [of buf] obtain r
    where r: "u \<noteq> []" "buf = u @ r" "rest = trimStart r" by auto
  have "length (trimStart r) \<le> length r"
    by (simp add: trimStart_def length_dropWhile_le)
  with r have "length rest < length buf" by (cases u) auto
  moreover from assms have "dispatched (process_chunk t v) = dispatched t
       \<and> aiTextLog (process_chunk t v) = aiTextLog t
       \<and> receivedMessage (process_chunk t v) = rest"
    by (simp add: process_chunk_def replace_brackets_empty_iff)
  ultimately show ?thesis using r by blast
qed

subsection \<open>Two chunks with a tag\<close>

lemma happy_tag: "js_match tag_re (ascii ''[happy]Hi.'') = Some (ascii ''[happy]'')"
proof -
  have "tag_re (ascii ''[happy]Hi.'') = Some (ascii ''Hi.'')"
    by (simp add: tag_re_def class_defs ascii_def)
  then show ?thesis by (rule js_match_prefix) (simp add: ascii_def)
qed

lemma hi_unit: "extract_sentence (ascii ''Hi.'') = (Some (ascii ''Hi.''), [])"
proof -
  have "sentence_re (ascii ''Hi.'') = Some []"
    by (simp add: sentence_re_def alt_def class_defs ascii_def)
  then have "js_match sentence_re (ascii ''Hi.'') = Some (ascii ''Hi.'')"
    by (rule js_match_prefix) simp
  then show ?thesis
    by (simp add: extract_sentence_def slice_def trimStart_def ascii_def)
qed

lemma bye_no_tag: "js_match tag_re (ascii ''Bye.'') = None"
  by (simp add: js_match_def tag_re_def ascii_def)

lemma bye_unit: "extract_sentence (ascii ''Bye.'') = (Some (ascii ''Bye.''), [])"
proof -
  have "sentence_re (ascii ''Bye.'') = Some []"
    by (simp add: sentence_re_def alt_def class_defs ascii_def)
  then have "js_match sentence_re (ascii ''Bye.'') = Some (ascii ''Bye.'')"
    by (rule js_match_prefix) simp
  then show ?thesis
    by (simp add: extract_sentence_def slice_def trimStart_def ascii_def)
qed

lemma hi_speakable: "replace_brackets (ascii ''Hi.'') \<noteq> []"
  by (simp add: replace_brackets_empty_iff is_bracket_def is_space_def ascii_def)

lemma bye_speakable: "replace_brackets (ascii ''Bye.'') \<noteq> []"
  by (simp add: replace_brackets_empty_iff is_bracket_def is_space_def ascii_def)

lemma happy_chunk:
  "process_chunk new_turn (ascii ''[happy]Hi.'') =
     \<lparr>receivedMessage = [], aiTextLog = ascii ''[happy] Hi.'', tag = ascii ''[happy]'',
      sentences = [ascii ''Hi.''],
      dispatched = [\<lparr>talk = ascii ''[happy] Hi.'', shown = ascii ''Hi.''\<rparr>]\<rparr>"
proof -
  have "strip_tag [] (ascii ''[happy]Hi.'') = (ascii ''[happy]'', ascii ''Hi.'')"
    using happy_tag by (simp add: strip_tag_def slice_def ascii_def)
  then show ?thesis
    using hi_speakable
    by (simp add: process_chunk_def new_turn_def hi_unit) (simp add: ascii_def Let_def)
qed

lemma bye_chunk:
  "process_chunk (process_chunk new_turn (ascii ''[happy]Hi.'')) (ascii ''Bye.'') =
     \<lparr>receivedMessage = [], aiTextLog = ascii ''[happy] Hi.[happy] Bye.'',
      tag = ascii ''[happy]'', sentences = [ascii ''Hi.'', ascii ''Bye.''],
      dispatched = [\<lparr>talk = ascii ''[happy] Hi.'', shown = ascii ''Hi.''\<rparr>,
                    \<lparr>talk = ascii ''[happy] Bye.'', shown = ascii ''Hi. Bye.''\<rparr>]\<rparr>"
proof -
  have "strip_tag (ascii ''[happy]'') (ascii ''Bye.'') = (ascii ''[happy]'', ascii ''Bye.'')"
    using bye_no_tag by (simp add: strip_tag_def)
  then show ?thesis
    using bye_speakable unfolding happy_chunk
    by (simp add: process_chunk_def bye_unit) (simp add: ascii_def Let_def)
qed

theorem tag_annotates_until_replaced_witness:
  "js_match tag_re (receivedMessage new_turn @ ascii ''[happy]Hi.'') = Some (ascii ''[happy]'')
   \<and> tag_free (process_chunk new_turn (ascii ''[happy]Hi.'')) [ascii ''Bye.'']
   \<and> tag (run_chunks new_turn [ascii ''[happy]Hi.'', ascii ''Bye.'']) = ascii ''[happy]''
   \<and> map talk (dispatched (run_chunks new_turn [ascii ''[happy]Hi.'', ascii ''Bye.'']))
       = [ascii ''[happy] Hi.'', ascii ''[happy] Bye.'']"
proof -
  have h1: "js_match tag_re (receivedMessage new_turn @ ascii ''[happy]Hi.'')
      = Some (ascii ''[happy]'')"
    using happy_tag by (simp add: new_turn_def)
  have h2: "tag_free (process_chunk new_turn (ascii ''[happy]Hi.'')) [ascii ''Bye.'']"
    using bye_no_tag unfolding happy_chunk by simp
  have "map talk (dispatched (run_chunks new_turn [ascii ''[happy]Hi.'', ascii ''Bye.'']))
       = [ascii ''[happy] Hi.'', ascii ''[happy] Bye.'']"
    unfolding run_chunks_def foldl.simps bye_chunk by simp
  with h1 h2 tag_annotates_until_replaced [OF h1 h2] show ?thesis by blast
qed

subsection \<open>A unit of brackets only\<close>

lemma brackets_unit:
  "extract_sentence [0x3010, 0x3011, 0x0A] = (Some [0x3010, 0x3011, 0x0A], [])"
proof -
  have "sentence_re [0x3010, 0x3011, 0x0A] = Some []"
    by (simp add: sentence_re_def alt_def class_defs)
  then have "js_match sentence_re [0x3010, 0x3011, 0x0A] = Some [0x3010, 0x3011, 0x0A]"
    by (rule js_match_prefix) simp
  then show ?thesis
    by (simp add: extract_sentence_def slice_def trimStart_def)
qed

theorem unspeakable_unit_is_skipped_witness:
  "strip_tag (tag new_turn) (receivedMessage new_turn @ [0x3010, 0x3011, 0x0A])
      = ([], [0x3010, 0x3011, 0x0A])
   \<and> extract_sentence [0x3010, 0x3011, 0x0A] = (Some [0x3010, 0x3011, 0x0A], [])
   \<and> list_all is_bracket [0x3010, 0x3011, 0x0A]
   \<and> dispatched (process_chunk new_turn [0x3010, 0x3011, 0x0A]) = []
   \<and> receivedMessage (process_chunk new_turn [0x3010, 0x3011, 0x0A]) = []"
proof -
  have h1: "strip_tag (tag new_turn) (receivedMessage new_turn @ [0x3010, 0x3011, 0x0A])
      = ([], [0x3010, 0x3011, 0x0A])"
    by (simp add: strip_tag_def js_match_def tag_re_def new_turn_def)
  have h3: "list_all is_bracket [0x3010, 0x3011, 0x0A]"
    by (simp add: is_bracket_def is_space_def)
  from unspeakable_unit_is_skipped [OF h1 brackets_unit h3] h1 h3 brackets_unit
  show ?thesis by (simp add: new_turn_def)
qed

subsection \<open>The two chunks of the specification's example\<close>

lemma how_unit: "extract_sentence (ascii ''How are you?'') = (Some (ascii ''How are you?''), [])"
proof -
  have "sentence_re (ascii ''How are you?'') = Some []"
    by (simp add: sentence_re_def alt_def class_defs ascii_def)
  then have "js_match sentence_re (ascii ''How are you?'') = Some (ascii ''How are you?'')"
    by (rule js_match_prefix) simp
  then show ?thesis
    by (simp add: extract_sentence_def slice_def trimStart_def ascii_def)
qed

lemma hello_chunk:
  "process_chunk new_turn (ascii ''Hello world. '') =
     \<lparr>receivedMessage = [], aiTextLog = ascii '' Hello world.'', tag = [],
      sentences = [ascii ''Hello world.''],
      dispatched = [\<lparr>talk = ascii '' Hello world.'', shown = ascii ''Hello world.''\<rparr>]\<rparr>"
proof -
  have "strip_tag [] (ascii ''Hello world. '') = ([], ascii ''Hello world. '')"
    by (simp add: strip_tag_def js_match_def tag_re_def ascii_def)
  moreover have "replace_brackets (ascii ''Hello world.'') \<noteq> []"
    by (simp add: replace_brackets_empty_iff is_bracket_def is_space_def ascii_def)
  ultimately show ?thesis
    by (simp add: process_chunk_def new_turn_def ex1) (simp add: ascii_def Let_def)
qed

lemma two_chunks_two_utterances:
  "sentences (run_chunks new_turn [ascii ''Hello world. '', ascii ''How are you?''])
     = [ascii ''Hello world.'', ascii ''How are you?'']
   \<and> map talk (dispatched (run_chunks new_turn [ascii ''Hello world. '', ascii ''How are you?'']))
     = [ascii '' Hello world.'', ascii '' How are you?'']"
proof -
  have "strip_tag [] (ascii ''How are you?'') = ([], ascii ''How are you?'')"
    by (simp add: strip_tag_def js_match_def tag_re_def ascii_def)
  moreover have "replace_brackets (ascii ''How are you?'') \<noteq> []"
    by (simp add: replace_brackets_empty_iff is_bracket_def is_space_def ascii_def)
  ultimately show ?thesis
    unfolding run_chunks_def foldl.simps hello_chunk
    by (simp add: process_chunk_def how_unit) (simp add: ascii_def Let_def)
qed

section \<open>Speech dispatch\<close>

lemma events_callbacks:
  "\<exists>mid. events (foldl (playback_callback d) a ps) = events a @ mid \<and> speak_calls mid = []"
proof (induction ps arbitrary: a)
  case Nil
  then show ?case by simp
next
  case (Cons p ps)
  from Cons.IH [of "playback_callback d a p"] obtain mid
    where "events (foldl (playback_callback d) (playback_callback d a p) ps)
        = events (playback_callback d a p) @ mid" "speak_calls mid = []" by blast
  moreover have "\<exists>x. events (playback_callback d a p) = events a @ [Playing_set x]"
    by (cases p) (auto simp: playback_callback_def)
  ultimately show ?case by auto
qed

lemma speak_settle_result: "snd (speak_settle d r a) = Resolved"
  by (cases r) (simp_all add: speak_settle_def)

lemma speak_settle_flag: "\<not> isAISpeaking (fst (speak_settle d r a))"
  by (cases r) (simp_all add: speak_settle_def)

lemma speak_settle_events:
  "\<exists>mid. events (fst (speak_settle d r a)) = events a @ mid @ [Speaking_set False, Dispatch_settled d]"
  by (cases r) (simp_all add: speak_settle_def)

text \<open>
  Claim C6. A call of \<^verbatim>\<open>handleSpeakAi\<close> first sets the speaking flag, then calls
  \<^verbatim>\<open>speakCharacter\<close>; however that call goes, resolved or rejected, the promise of
  \<^verbatim>\<open>handleSpeakAi\<close> resolves, the flag is false when it does, and resetting the flag
  is the last thing before it settles. The same holds of the two halves of a call when
  other events run in between, and a settling call, failed or not, leaves the state of
  the segmenter as it is.
\<close>

theorem dispatch_resets_speaking_flag:
  "snd (handleSpeakAi d sp a) = Resolved
   \<and> \<not> isAISpeaking (fst (handleSpeakAi d sp a))
   \<and> (\<exists>mid. events (fst (handleSpeakAi d sp a))
         = events a @ [Speaking_set True, Speak_called d] @ mid
           @ [Speaking_set False, Dispatch_settled d])
   \<and> isAISpeaking (speak_call d a)
   \<and> snd (speak_settle d r a) = Resolved
   \<and> \<not> isAISpeaking (fst (speak_settle d r a))
   \<and> turn (chat_step c (Speech_settles d r)) = turn c"
proof -
  let ?a1 = "foldl (playback_callback d) (speak_call d a) (fst sp)"
  from events_callbacks [of d "speak_call d a" "fst sp"] obtain m1
    where m1: "events ?a1 = events (speak_call d a) @ m1" by blast
  from speak_settle_events [of d "snd sp" ?a1] obtain m2
    where "events (fst (speak_settle d (snd sp) ?a1))
        = events ?a1 @ m2 @ [Speaking_set False, Dispatch_settled d]" by blast
  with m1 have "events (fst (handleSpeakAi d sp a))
      = events a @ [Speaking_set True, Speak_called d] @ (m1 @ m2)
        @ [Speaking_set False, Dispatch_settled d]"
    by (simp add: handleSpeakAi_def speak_call_def)
  then have "\<exists>mid. events (fst (handleSpeakAi d sp a))
         = events a @ [Speaking_set True, Speak_called d] @ mid
           @ [Speaking_set False, Dispatch_settled d]" by blast
  moreover have "turn (chat_step c (Speech_settles d r)) = turn c"
    by (simp add: chat_step_def)
  moreover have "isAISpeaking (speak_call d a)" by (simp add: speak_call_def)
  ultimately show ?thesis
    by (simp add: handleSpeakAi_def speak_settle_result speak_settle_flag)
qed

section \<open>The order of the dispatches\<close>

lemma speak_calls_append: "speak_calls (xs @ ys) = speak_calls xs @ speak_calls ys"
  by (induction xs rule: speak_calls.induct) simp_all

lemma speak_call_fold:
  "speak_calls (events (foldl (\<lambda>a d. speak_call d a) a ds)) = speak_calls (events a) @ ds"
  by (induction ds arbitrary: a) (simp_all add: speak_call_def speak_calls_append)

lemma process_chunk_extends:
  "dispatched (process_chunk t v)
     = dispatched t @ drop (length (dispatched t)) (dispatched (process_chunk t v))"
  using process_chunk_dispatched [of t v] by auto

lemma chat_step_calls:
  assumes "speak_calls (events (home c)) = dispatched (turn c)"
  shows "speak_calls (events (home (chat_step c e))) = dispatched (turn (chat_step c e))"
proof (cases e)
  case (Chunk v)
  with assms process_chunk_extends [of "turn c" v] show ?thesis
    by (simp add: chat_step_def Let_def speak_call_fold)
next
  case (Playback d p)
  with assms show ?thesis
    by (cases p) (simp_all add: chat_step_def playback_callback_def speak_calls_append)
next
  case (Speech_settles d r)
  with assms show ?thesis
    by (cases r) (simp_all add: chat_step_def speak_settle_def speak_calls_append)
qed

lemma chat_step_turn:
  "turn (chat_step c e) = run_chunks (turn c) (chunks_of [e])"
  by (cases e) (simp_all add: chat_step_def run_chunks_def Let_def)

lemma run_chat_turn:
  "turn (run_chat c es) = run_chunks (turn c) (chunks_of es)"
proof (induction es arbitrary: c)
  case Nil
  then show ?case by (simp add: run_chat_def run_chunks_def)
next
  case (Cons e es)
  from Cons.IH [of "chat_step c e"] show ?case
    by (cases e) (simp_all add: run_chat_def run_chunks_def chat_step_def Let_def)
qed

lemma run_chat_calls:
  "speak_calls (events (home c)) = dispatched (turn c) \<Longrightarrow>
     speak_calls (events (home (run_chat c es))) = dispatched (turn (run_chat c es))"
proof (induction es arbitrary: c)
  case Nil
  then show ?case by (simp add: run_chat_def)
next
  case (Cons e es)
  from Cons.IH [OF chat_step_calls [OF Cons.prems, of e]] show ?case
    by (simp add: run_chat_def)
qed

lemma process_chunk_in_order:
  assumes "list_all2 (\<lambda>d s. \<exists>tg. talk d = tg @ [0x20] @ s)
             (dispatched t) (speakable (sentences t))"
  shows "list_all2 (\<lambda>d s. \<exists>tg. talk d = tg @ [0x20] @ s)
           (dispatched (process_chunk t v)) (speakable (sentences (process_chunk t v)))"
proof -
  obtain tg buf where st: "strip_tag (tag t) (receivedMessage t @ v) = (tg, buf)"
    by (cases "strip_tag (tag t) (receivedMessage t @ v)")
  obtain u rest where ex: "extract_sentence buf = (u, rest)"
    by (cases "extract_sentence buf")
  show ?thesis
  proof (cases u)
    case None
    with st ex assms show ?thesis by (simp add: process_chunk_def)
  next
    case (Some s)
    show ?thesis
    proof (cases "replace_brackets s = []")
      case True
      with st ex Some assms show ?thesis
        by (simp add: process_chunk_def speakable_def)
    next
      case False
      have "list_all2 (\<lambda>d s. \<exists>tg. talk d = tg @ [0x20] @ s)
              [\<lparr>talk = tg @ [0x20] @ s, shown = join_space (sentences t @ [s])\<rparr>] [s]"
        by auto
      with assms have "list_all2 (\<lambda>d s. \<exists>tg. talk d = tg @ [0x20] @ s)
          (dispatched t @ [\<lparr>talk = tg @ [0x20] @ s, shown = join_space (sentences t @ [s])\<rparr>])
          (speakable (sentences t) @ [s])"
        by (rule list_all2_appendI)
      with st ex Some False show ?thesis
        by (simp add: process_chunk_def speakable_def Let_def)
    qed
  qed
qed

lemma run_chunks_in_order:
  "list_all2 (\<lambda>d s. \<exists>tg. talk d = tg @ [0x20] @ s) (dispatched t) (speakable (sentences t))
   \<Longrightarrow> list_all2 (\<lambda>d s. \<exists>tg. talk d = tg @ [0x20] @ s)
         (dispatched (run_chunks t vs)) (speakable (sentences (run_chunks t vs)))"
proof (induction vs arbitrary: t)
  case Nil
  then show ?case by (simp add: run_chunks_def)
next
  case (Cons v vs)
  from Cons.IH [OF process_chunk_in_order [OF Cons.prems, of v]] show ?case
    by (simp add: run_chunks_Cons)
qed

text \<open>
  Claim C2, as the code has it. Whatever the order of chunks, callbacks and settling
  speech calls, the calls of \<^verbatim>\<open>speakCharacter\<close> are made in the order of the calls of
  \<^verbatim>\<open>handleSpeakAi\<close>, and these carry the speakable units in the order of their
  extraction, each behind a tag and a space; the units extracted depend on the chunks
  only.
\<close>

theorem dispatches_in_extraction_order:
  "speak_calls (events (home (run_chat new_chat es))) = dispatched (turn (run_chat new_chat es))
   \<and> list_all2 (\<lambda>d s. \<exists>tg. talk d = tg @ [0x20] @ s)
        (dispatched (turn (run_chat new_chat es)))
        (speakable (sentences (turn (run_chat new_chat es))))
   \<and> turn (run_chat new_chat es) = run_chunks new_turn (chunks_of es)"
proof -
  have "speak_calls (events (home new_chat)) = dispatched (turn new_chat)"
    by (simp add: new_chat_def new_home_def new_turn_def)
  then have "speak_calls (events (home (run_chat new_chat es)))
      = dispatched (turn (run_chat new_chat es))"
    by (rule run_chat_calls)
  moreover have t: "turn (run_chat new_chat es) = run_chunks new_turn (chunks_of es)"
    by (simp add: run_chat_turn new_chat_def)
  moreover have "list_all2 (\<lambda>d s. \<exists>tg. talk d = tg @ [0x20] @ s)
      (dispatched new_turn) (speakable (sentences new_turn))"
    by (simp add: new_turn_def speakable_def)
  then have "list_all2 (\<lambda>d s. \<exists>tg. talk d = tg @ [0x20] @ s)
      (dispatched (run_chunks new_turn (chunks_of es)))
      (speakable (sentences (run_chunks new_turn (chunks_of es))))"
    by (rule run_chunks_in_order)
  ultimately show ?thesis by simp
qed

text \<open>
  Claim C2, as stated, fails: two chunks arrive one after the other, each with a unit,
  and the second call of \<^verbatim>\<open>speakCharacter\<close> is made while the first call of
  \<^verbatim>\<open>handleSpeakAi\<close> has not settled.
\<close>

theorem second_dispatch_before_first_settles:
  "\<not> one_at_a_time 0
       (events (home (run_chat new_chat [Chunk (ascii ''[happy]Hi.''), Chunk (ascii ''Bye.'')])))"
proof -
  have 1: "chat_step new_chat (Chunk (ascii ''[happy]Hi.'')) =
      \<lparr>turn = process_chunk new_turn (ascii ''[happy]Hi.''),
       home = speak_call \<lparr>talk = ascii ''[happy] Hi.'', shown = ascii ''Hi.''\<rparr>
                (new_home\<lparr>chatProcessing := True\<rparr>)\<rparr>"
    by (simp add: chat_step_def new_chat_def Let_def happy_chunk) (simp add: new_turn_def)
  have 2: "home (chat_step (chat_step new_chat (Chunk (ascii ''[happy]Hi.''))) (Chunk (ascii ''Bye.'')))
      = speak_call \<lparr>talk = ascii ''[happy] Bye.'', shown = ascii ''Hi. Bye.''\<rparr>
          (speak_call \<lparr>talk = ascii ''[happy] Hi.'', shown = ascii ''Hi.''\<rparr>
            (new_home\<lparr>chatProcessing := True\<rparr>))"
    unfolding 1 by (simp add: chat_step_def Let_def bye_chunk) (simp add: happy_chunk)
  show ?thesis
    unfolding run_chat_def foldl.simps 2
    by (simp add: speak_call_def new_home_def)
qed

section \<open>The busy gate\<close>

text \<open>
  Claim C5, as the code has it. If one of the three flags is set, the callback returns
  at once, without a call of \<^verbatim>\<open>handleSendChat\<close>, the refusal whose text is
  "System is busy processing previous message". If none is set, the message is handed
  to \<^verbatim>\<open>handleSendChat\<close>, and the result says processed when that call returns. So
  the message is withheld exactly when a flag is set.
\<close>

theorem busy_gate:
  "(isAISpeaking a \<or> isPlayingAudio a \<or> chatProcessing a \<longrightarrow>
      llm_callback a h m =
        \<lparr>handed = None,
         result = \<lparr>processed = False,
                   error = Some (ascii ''System is busy processing previous message'')\<rparr>\<rparr>)
   \<and> (\<not> (isAISpeaking a \<or> isPlayingAudio a \<or> chatProcessing a) \<longrightarrow>
        handed (llm_callback a h m) = Some m
        \<and> result (llm_callback a Returns m) = \<lparr>processed = True, error = None\<rparr>)
   \<and> (handed (llm_callback a h m) = None
        \<longleftrightarrow> isAISpeaking a \<or> isPlayingAudio a \<or> chatProcessing a)"
  by (simp add: llm_callback_def)

theorem busy_gate_witness:
  "llm_callback (new_home\<lparr>isPlayingAudio := True\<rparr>) Returns (ascii ''hello'') =
     \<lparr>handed = None,
      result = \<lparr>processed = False,
                error = Some (ascii ''System is busy processing previous message'')\<rparr>\<rparr>
   \<and> handed (llm_callback new_home Returns (ascii ''hello'')) = Some (ascii ''hello'')
   \<and> result (llm_callback new_home Returns (ascii ''hello'')) = \<lparr>processed = True, error = None\<rparr>"
  using busy_gate [of "new_home\<lparr>isPlayingAudio := True\<rparr>" Returns "ascii ''hello''"]
    busy_gate [of new_home Returns "ascii ''hello''"]
  by (simp add: new_home_def)

text \<open>
  Claim C5, as stated, fails on the text of the refusal: with a turn in progress the
  callback does not return the error "system busy".
\<close>

theorem busy_refusal_text:
  "result (llm_callback (new_home\<lparr>chatProcessing := True\<rparr>) Returns (ascii ''hello''))
     \<noteq> \<lparr>processed = False, error = Some (ascii ''system busy'')\<rparr>"
  by (simp add: llm_callback_def new_home_def ascii_def)

section \<open>The command channel client\<close>

lemmas client_defs =
  connect_def disconnect_def scheduleReconnect_def clearTimeout_def detach_def
  close_socket_def notifyConnectionChange_def on_open_def on_close_def set_ready_def
  ws_state_def

lemma send_effects_only: "\<exists>fx. send c f = c\<lparr>effects := fx\<rparr>"
proof (cases "isConnected c \<and> ws c \<noteq> None")
  case True
  then have "send c f = c\<lparr>effects := effects c @ [Frame_sent (the (ws c)) f]\<rparr>"
    by (auto simp: send_def)
  then show ?thesis by blast
next
  case False
  then have "send c f = c\<lparr>effects := effects c\<rparr>"
    by (auto simp: send_def split: option.splits)
  then show ?thesis by blast
qed

lemma foldl_send_effects_only: "\<exists>fx. foldl send c fs = c\<lparr>effects := fx\<rparr>"
proof (induction fs arbitrary: c)
  case Nil
  have "c = c\<lparr>effects := effects c\<rparr>" by simp
  then show ?case by (metis foldl.simps(1))
next
  case (Cons f fs)
  from send_effects_only [of c f] obtain fx where 1: "send c f = c\<lparr>effects := fx\<rparr>" by blast
  from Cons.IH [of "send c f"] obtain fy where "foldl send (send c f) fs = (send c f)\<lparr>effects := fy\<rparr>"
    by blast
  with 1 have "foldl send c (f # fs) = c\<lparr>effects := fy\<rparr>" by simp
  then show ?case by blast
qed

lemma on_message_effects_only: "\<exists>fx. on_message hs c data = c\<lparr>effects := fx\<rparr>"
proof (cases data)
  case None
  have "c = c\<lparr>effects := effects c\<rparr>" by simp
  with None show ?thesis unfolding on_message_def by (metis option.simps(4))
next
  case (Some cmd)
  with foldl_send_effects_only show ?thesis by (simp add: on_message_def handleCommand_def)
qed

subsection \<open>The invariant\<close>

lemma inv_new: "client_inv (new_client ok)"
  by (simp add: client_inv_def new_client_def)

lemma inv_effects: "client_inv (c\<lparr>effects := fx\<rparr>) = client_inv c"
  by (simp add: client_inv_def cong: option.case_cong)

lemma inv_scheduleReconnect: "client_inv c \<Longrightarrow> client_inv (scheduleReconnect c)"
  by (auto simp: client_inv_def scheduleReconnect_def split: option.splits)

lemma inv_connect: "client_inv c \<Longrightarrow> client_inv (connect c)"
  using inv_scheduleReconnect [of c]
  by (auto simp: connect_def) (auto simp: client_inv_def split: option.splits)

lemma inv_disconnect: "client_inv c \<Longrightarrow> client_inv (disconnect c)"
  by (auto simp: client_inv_def disconnect_def clearTimeout_def detach_def close_socket_def
      Let_def split: option.splits)

lemma inv_on_open: "client_inv c \<Longrightarrow> client_inv (on_open c)"
  by (auto simp: client_inv_def on_open_def clearTimeout_def notifyConnectionChange_def
      ws_state_def Let_def split: option.splits)

lemma inv_on_close: "client_inv c \<Longrightarrow> client_inv (on_close c)"
  by (auto simp: client_inv_def on_close_def scheduleReconnect_def notifyConnectionChange_def
      split: option.splits)

lemma inv_set_ready: "client_inv c \<Longrightarrow> client_inv (set_ready i r c)"
  by (auto simp: client_inv_def set_ready_def split: option.splits)

lemma inv_timer:
  assumes "client_inv c" and "t \<in> fst ` set (timers c)"
  shows "client_inv (c\<lparr>timers := filter (\<lambda>x. fst x \<noteq> t) (timers c), reconnectTimer := None\<rparr>)"
  using assms by (auto simp: client_inv_def split: option.splits)

lemma inv_step: "client_inv c \<Longrightarrow> client_inv (step hs c e)"
proof (cases e)
  case Call_connect
  assume "client_inv c"
  with Call_connect show ?thesis by (simp add: step_def inv_connect)
next
  case Call_disconnect
  assume "client_inv c"
  with Call_disconnect show ?thesis by (simp add: step_def inv_disconnect)
next
  case (Call_send f)
  assume "client_inv c"
  with Call_send send_effects_only [of c f] show ?thesis
    by (auto simp: step_def inv_effects)
next
  case (Socket_opens i)
  assume "client_inv c"
  with Socket_opens show ?thesis
    by (simp add: step_def inv_on_open inv_set_ready)
next
  case (Socket_message i data)
  assume "client_inv c"
  with Socket_message on_message_effects_only [of hs c data] show ?thesis
    by (auto simp: step_def inv_effects)
next
  case (Socket_error i)
  assume "client_inv c"
  with Socket_error show ?thesis by (simp add: step_def)
next
  case (Socket_closes i)
  assume "client_inv c"
  with Socket_closes show ?thesis
    by (simp add: step_def inv_on_close inv_set_ready)
next
  case (Timer_fires t)
  assume "client_inv c"
  with Timer_fires show ?thesis
    by (simp add: step_def inv_connect inv_timer)
qed

lemma inv_run: "client_inv c \<Longrightarrow> client_inv (run hs c es)"
  by (induction es arbitrary: c) (simp_all add: run_def inv_step)

lemma inv_reachable: "client_inv (run hs (new_client ok) es)"
  by (rule inv_run) (rule inv_new)

text \<open>
  Claim C10. When the socket of the client is open, \<^verbatim>\<open>connect\<close> returns the client
  as it is: no socket is made, nothing is sent, no field changes.
\<close>

theorem connect_when_open_is_noop:
  assumes "ws_state c = Some OPEN"
  shows "connect c = c \<and> sockets (connect c) = sockets c \<and> effects (connect c) = effects c
       \<and> connected (connect c) = connected c \<and> ws (connect c) = ws c"
  using assms by (simp add: connect_def)

lemma opened_client:
  "run hs (new_client True) [Call_connect, Socket_opens 0] =
     \<lparr>ws = Some 0, reconnectTimer = None, connected = True, destroyed = False,
      sockets = [\<lparr>readyState = OPEN, onopen = True, onmessage = True, onerror = True,
                  onclose = True\<rparr>],
      timers = [], next_timer = 1, url_ok = True,
      effects = [Socket_created 0, Connection_notified True, Frame_sent 0 Identify]\<rparr>"
  by (simp add: run_def step_def new_client_def client_defs)

theorem connect_when_open_is_noop_witness:
  "ws_state (run [] (new_client True) [Call_connect, Socket_opens 0]) = Some OPEN
   \<and> connect (run [] (new_client True) [Call_connect, Socket_opens 0])
       = run [] (new_client True) [Call_connect, Socket_opens 0]"
proof -
  have h: "ws_state (run [] (new_client True) [Call_connect, Socket_opens 0]) = Some OPEN"
    by (simp add: opened_client ws_state_def)
  from connect_when_open_is_noop [OF h] h show ?thesis by simp
qed

text \<open>
  Claim C8. After any sequence of calls and events on a new client, at most one timeout
  is set, and its delay is 5000 ms; a request to schedule a reconnect while the field
  holds a timeout changes nothing; and after the close event of a socket that has its
  close handler, exactly one timeout is set.
\<close>

theorem single_reconnect_timer:
  "length (timers (run hs (new_client ok) es)) \<le> 1
   \<and> (\<forall>x \<in> set (timers (run hs (new_client ok) es)). snd x = 5000)
   \<and> (reconnectTimer (run hs (new_client ok) es) \<noteq> None \<longrightarrow>
        scheduleReconnect (run hs (new_client ok) es) = run hs (new_client ok) es)
   \<and> (\<forall>i. i < length (sockets (run hs (new_client ok) es))
          \<and> readyState (sockets (run hs (new_client ok) es) ! i) \<noteq> CLOSED
          \<and> onclose (sockets (run hs (new_client ok) es) ! i) \<longrightarrow>
          length (timers (step hs (run hs (new_client ok) es) (Socket_closes i))) = 1)"
proof -
  let ?c = "run hs (new_client ok) es"
  have inv: "client_inv ?c" by (rule inv_reachable)
  then have "length (timers ?c) \<le> 1" "\<forall>x \<in> set (timers ?c). snd x = 5000"
    by (auto simp: client_inv_def reconnectInterval_def split: option.splits)
  moreover have "reconnectTimer ?c \<noteq> None \<longrightarrow> scheduleReconnect ?c = ?c"
    by (simp add: scheduleReconnect_def)
  moreover have "\<forall>i. i < length (sockets ?c) \<and> readyState (sockets ?c ! i) \<noteq> CLOSED
          \<and> onclose (sockets ?c ! i) \<longrightarrow> length (timers (step hs ?c (Socket_closes i))) = 1"
  proof (intro allI impI)
    fix i
    assume i: "i < length (sockets ?c) \<and> readyState (sockets ?c ! i) \<noteq> CLOSED
          \<and> onclose (sockets ?c ! i)"
    then have "step hs ?c (Socket_closes i) = on_close (set_ready i CLOSED ?c)"
      by (simp add: step_def)
    moreover from inv have "client_inv (set_ready i CLOSED ?c)" by (rule inv_set_ready)
    then have "length (timers (on_close (set_ready i CLOSED ?c))) = 1"
      by (auto simp: client_inv_def on_close_def scheduleReconnect_def
          notifyConnectionChange_def split: option.splits)
    ultimately show "length (timers (step hs ?c (Socket_closes i))) = 1" by simp
  qed
  ultimately show ?thesis by blast
qed

lemma closed_client:
  "run hs (new_client True) [Call_connect, Socket_closes 0] =
     \<lparr>ws = Some 0, reconnectTimer = Some 1, connected = False, destroyed = False,
      sockets = [\<lparr>readyState = CLOSED, onopen = True, onmessage = True, onerror = True,
                  onclose = True\<rparr>],
      timers = [(1, 5000)], next_timer = 2, url_ok = True,
      effects = [Socket_created 0, Connection_notified False, Timer_set 1 5000]\<rparr>"
  by (simp add: run_def step_def new_client_def client_defs reconnectInterval_def)

theorem single_reconnect_timer_witness:
  "reconnectTimer (run [] (new_client True) [Call_connect, Socket_closes 0]) \<noteq> None
   \<and> scheduleReconnect (run [] (new_client True) [Call_connect, Socket_closes 0])
       = run [] (new_client True) [Call_connect, Socket_closes 0]
   \<and> timers (run [] (new_client True) [Call_connect, Socket_closes 0]) = [(1, 5000)]
   \<and> 0 < length (sockets (run [] (new_client True) [Call_connect, Socket_opens 0]))
   \<and> readyState (sockets (run [] (new_client True) [Call_connect, Socket_opens 0]) ! 0) \<noteq> CLOSED
   \<and> onclose (sockets (run [] (new_client True) [Call_connect, Socket_opens 0]) ! 0)
   \<and> length (timers (step [] (run [] (new_client True) [Call_connect, Socket_opens 0])
         (Socket_closes 0))) = 1"
proof -
  have h1: "reconnectTimer (run [] (new_client True) [Call_connect, Socket_closes 0]) \<noteq> None"
    and h2: "timers (run [] (new_client True) [Call_connect, Socket_closes 0]) = [(1, 5000)]"
    by (simp_all add: closed_client)
  have h3: "0 < length (sockets (run [] (new_client True) [Call_connect, Socket_opens 0]))
     \<and> readyState (sockets (run [] (new_client True) [Call_connect, Socket_opens 0]) ! 0) \<noteq> CLOSED
     \<and> onclose (sockets (run [] (new_client True) [Call_connect, Socket_opens 0]) ! 0)"
    by (simp add: opened_client)
  from single_reconnect_timer [of "[]" True "[Call_connect, Socket_closes 0]"]
    single_reconnect_timer [of "[]" True "[Call_connect, Socket_opens 0]"] h1 h2 h3
  show ?thesis by blast
qed

subsection \<open>After \<^verbatim>\<open>disconnect\<close>\<close>

lemma disconnect_fields:
  "destroyed (disconnect c) \<and> ws (disconnect c) = None \<and> reconnectTimer (disconnect c) = None
   \<and> \<not> connected (disconnect c) \<and> length (sockets (disconnect c)) = length (sockets c)"
  by (simp add: disconnect_def clearTimeout_def detach_def close_socket_def Let_def
      split: option.splits)

lemma disconnect_timers: "client_inv c \<Longrightarrow> timers (disconnect c) = []"
  by (auto simp: client_inv_def disconnect_def clearTimeout_def detach_def close_socket_def
      Let_def split: option.splits)

lemma disconnect_detaches:
  assumes "client_inv c" and "ws c = Some i"
  shows "detached i (disconnect c)
       \<and> (\<exists>pre. effects (disconnect c) = pre @ [Handlers_detached i, Socket_closed i])"
proof -
  from assms have i: "i < length (sockets c)" by (simp add: client_inv_def)
  with assms(2) have "detached i (disconnect c)"
    by (simp add: detached_def disconnect_def clearTimeout_def detach_def close_socket_def
        Let_def split: option.splits)
  moreover from i assms(2)
  have "effects (disconnect c)
      = (effects c @ (case reconnectTimer c of None \<Rightarrow> [] | Some t \<Rightarrow> [Timer_cleared t]))
        @ [Handlers_detached i, Socket_closed i]"
    by (simp add: disconnect_def clearTimeout_def detach_def close_socket_def
        Let_def split: option.splits)
  ultimately show ?thesis by blast
qed

lemma detached_effects: "detached i (c\<lparr>effects := fx\<rparr>) = detached i c"
  by (simp add: detached_def)

lemma detached_set_ready: "detached i c \<Longrightarrow> detached i (set_ready j r c)"
  by (cases "i = j") (auto simp: detached_def set_ready_def)

lemma detached_disconnect: "detached i c \<Longrightarrow> detached i (disconnect c)"
  by (auto simp: detached_def disconnect_def clearTimeout_def detach_def close_socket_def
      Let_def nth_list_update split: option.splits)

lemma detached_on_open: "detached i (on_open c) = detached i c"
  by (simp add: detached_def on_open_def clearTimeout_def notifyConnectionChange_def
      Let_def split: option.splits)

lemma detached_on_close: "detached i (on_close c) = detached i c"
  by (simp add: detached_def on_close_def scheduleReconnect_def notifyConnectionChange_def)

lemma sockets_on_open: "sockets (on_open c) = sockets c"
  by (simp add: on_open_def clearTimeout_def notifyConnectionChange_def
      Let_def split: option.splits)

lemma sockets_on_close: "sockets (on_close c) = sockets c"
  by (simp add: on_close_def scheduleReconnect_def notifyConnectionChange_def)

lemma dead_on_open: "destroyed (on_open c) = destroyed c \<and> ws (on_open c) = ws c"
  by (simp add: on_open_def clearTimeout_def notifyConnectionChange_def
      Let_def split: option.splits)

lemma dead_on_close: "destroyed (on_close c) = destroyed c \<and> ws (on_close c) = ws c"
  by (simp add: on_close_def scheduleReconnect_def notifyConnectionChange_def)

lemma connect_destroyed: "destroyed c \<Longrightarrow> connect c = c"
  by (simp add: connect_def)

lemma dead_step:
  assumes "destroyed c" and "ws c = None"
  shows "destroyed (step hs c e) \<and> ws (step hs c e) = None
       \<and> length (sockets (step hs c e)) = length (sockets c)
       \<and> (detached i c \<longrightarrow> detached i (step hs c e))"
proof (cases e)
  case Call_connect
  with assms show ?thesis by (simp add: step_def connect_destroyed)
next
  case Call_disconnect
  with assms show ?thesis by (simp add: step_def disconnect_fields detached_disconnect)
next
  case (Call_send f)
  with assms send_effects_only [of c f] show ?thesis
    by (auto simp: step_def detached_effects)
next
  case (Socket_opens j)
  with assms show ?thesis
    by (simp add: step_def dead_on_open sockets_on_open detached_on_open detached_set_ready)
      (simp add: set_ready_def)
next
  case (Socket_message j data)
  with assms on_message_effects_only [of hs c data] show ?thesis
    by (auto simp: step_def detached_effects)
next
  case (Socket_error j)
  with assms show ?thesis by (simp add: step_def)
next
  case (Socket_closes j)
  with assms show ?thesis
    by (simp add: step_def dead_on_close sockets_on_close detached_on_close detached_set_ready)
      (simp add: set_ready_def)
next
  case (Timer_fires t)
  with assms show ?thesis
    by (simp add: step_def connect_destroyed detached_def)
qed

lemma dead_run:
  "destroyed c \<Longrightarrow> ws c = None \<Longrightarrow>
     destroyed (run hs c es) \<and> ws (run hs c es) = None
     \<and> length (sockets (run hs c es)) = length (sockets c)
     \<and> (detached i c \<longrightarrow> detached i (run hs c es))"
proof (induction es arbitrary: c)
  case Nil
  then show ?case by (simp add: run_def)
next
  case (Cons e es)
  from dead_step [OF Cons.prems, of hs e i]
  have 1: "destroyed (step hs c e)" "ws (step hs c e) = None"
    "length (sockets (step hs c e)) = length (sockets c)"
    "detached i c \<longrightarrow> detached i (step hs c e)" by simp_all
  from Cons.IH [OF 1(1,2)] 1(3,4) show ?case by (simp add: run_def)
qed

lemma detached_socket_is_silent:
  assumes "detached i c"
    and "e = Socket_opens i \<or> e = Socket_closes i \<or> e = Socket_error i \<or> e = Socket_message i d"
  shows "(step hs c e)\<lparr>sockets := sockets c\<rparr> = c"
  using assms by (auto simp: detached_def step_def set_ready_def)

text \<open>
  Claim C7. Take a client after any sequence of calls and events, and call
  \<^verbatim>\<open>disconnect\<close>. Then no timeout is set any more; the handlers of its socket are
  taken off before the socket is closed. Whatever calls and events follow, the client
  stays destroyed, \<^verbatim>\<open>connect\<close> changes nothing, no socket is ever made again, and the
  events of the socket it had change no field of the client.
\<close>

theorem disconnect_is_final:
  "reconnectTimer (disconnect (run hs (new_client ok) es)) = None
   \<and> timers (disconnect (run hs (new_client ok) es)) = []
   \<and> destroyed (run hs (disconnect (run hs (new_client ok) es)) es')
   \<and> connect (run hs (disconnect (run hs (new_client ok) es)) es')
       = run hs (disconnect (run hs (new_client ok) es)) es'
   \<and> length (sockets (run hs (disconnect (run hs (new_client ok) es)) es'))
       = length (sockets (run hs (new_client ok) es))
   \<and> (\<forall>i. ws (run hs (new_client ok) es) = Some i \<longrightarrow>
         (\<exists>pre. effects (disconnect (run hs (new_client ok) es))
            = pre @ [Handlers_detached i, Socket_closed i])
         \<and> detached i (run hs (disconnect (run hs (new_client ok) es)) es')
         \<and> (\<forall>e. e = Socket_opens i \<or> e = Socket_closes i \<or> e = Socket_error i
                \<or> e = Socket_message i d \<longrightarrow>
               (step hs (run hs (disconnect (run hs (new_client ok) es)) es') e)
                 \<lparr>sockets := sockets (run hs (disconnect (run hs (new_client ok) es)) es')\<rparr>
               = run hs (disconnect (run hs (new_client ok) es)) es'))"
proof -
  let ?c = "run hs (new_client ok) es"
  let ?d = "disconnect ?c"
  let ?f = "run hs ?d es'"
  have inv: "client_inv ?c" by (rule inv_reachable)
  have d: "destroyed ?d" "ws ?d = None" "reconnectTimer ?d = None"
    "length (sockets ?d) = length (sockets ?c)"
    using disconnect_fields [of ?c] by simp_all
  have t: "timers ?d = []" using inv by (rule disconnect_timers)
  have f: "destroyed ?f" "ws ?f = None" "length (sockets ?f) = length (sockets ?c)"
    using dead_run [OF d(1,2), of hs es'] d(4) by simp_all
  then have c: "connect ?f = ?f" by (simp add: connect_destroyed)
  have "\<forall>i. ws ?c = Some i \<longrightarrow>
         (\<exists>pre. effects ?d = pre @ [Handlers_detached i, Socket_closed i])
         \<and> detached i ?f
         \<and> (\<forall>e. e = Socket_opens i \<or> e = Socket_closes i \<or> e = Socket_error i
                \<or> e = Socket_message i d \<longrightarrow> (step hs ?f e)\<lparr>sockets := sockets ?f\<rparr> = ?f)"
  proof (intro allI impI)
    fix i
    assume i: "ws ?c = Some i"
    from disconnect_detaches [OF inv i]
    have 1: "detached i ?d" "\<exists>pre. effects ?d = pre @ [Handlers_detached i, Socket_closed i]"
      by simp_all
    from dead_run [OF d(1,2), of hs es' i] 1(1) have 2: "detached i ?f" by simp
    from detached_socket_is_silent [OF 2]
    have "\<forall>e. e = Socket_opens i \<or> e = Socket_closes i \<or> e = Socket_error i
                \<or> e = Socket_message i d \<longrightarrow> (step hs ?f e)\<lparr>sockets := sockets ?f\<rparr> = ?f"
      by blast
    with 1(2) 2 show "(\<exists>pre. effects ?d = pre @ [Handlers_detached i, Socket_closed i])
         \<and> detached i ?f
         \<and> (\<forall>e. e = Socket_opens i \<or> e = Socket_closes i \<or> e = Socket_error i
                \<or> e = Socket_message i d \<longrightarrow> (step hs ?f e)\<lparr>sockets := sockets ?f\<rparr> = ?f)"
      by blast
  qed
  with d(3) t f(1,3) c show ?thesis by blast
qed

lemma disconnected_client:
  "disconnect (run [] (new_client True) [Call_connect, Socket_closes 0]) =
     \<lparr>ws = None, reconnectTimer = None, connected = False, destroyed = True,
      sockets = [\<lparr>readyState = CLOSED, onopen = False, onmessage = False, onerror = False,
                  onclose = False\<rparr>],
      timers = [], next_timer = 2, url_ok = True,
      effects = [Socket_created 0, Connection_notified False, Timer_set 1 5000,
                 Timer_cleared 1, Handlers_detached 0, Socket_closed 0]\<rparr>"
  unfolding closed_client
  by (simp add: disconnect_def clearTimeout_def detach_def close_socket_def)

theorem disconnect_is_final_witness:
  "ws (run [] (new_client True) [Call_connect, Socket_closes 0]) = Some 0
   \<and> timers (run [] (new_client True) [Call_connect, Socket_closes 0]) = [(1, 5000)]
   \<and> timers (disconnect (run [] (new_client True) [Call_connect, Socket_closes 0])) = []
   \<and> length (sockets (run [] (disconnect (run [] (new_client True) [Call_connect, Socket_closes 0]))
         [Timer_fires 1, Call_connect])) = 1
   \<and> (step [] (run [] (disconnect (run [] (new_client True) [Call_connect, Socket_closes 0]))
                 [Timer_fires 1, Call_connect]) (Socket_closes 0))
        \<lparr>sockets := sockets (run [] (disconnect (run [] (new_client True)
                 [Call_connect, Socket_closes 0])) [Timer_fires 1, Call_connect])\<rparr>
      = run [] (disconnect (run [] (new_client True) [Call_connect, Socket_closes 0]))
                 [Timer_fires 1, Call_connect]"
proof -
  have h1: "ws (run [] (new_client True) [Call_connect, Socket_closes 0]) = Some 0"
    and h2: "timers (run [] (new_client True) [Call_connect, Socket_closes 0]) = [(1, 5000)]"
    and h3: "length (sockets (run [] (new_client True) [Call_connect, Socket_closes 0])) = 1"
    by (simp_all add: closed_client)
  from disconnect_is_final [of "[]" True "[Call_connect, Socket_closes 0]"
      "[Timer_fires 1, Call_connect]" None] h1 h2 h3
  show ?thesis by simp
qed

section \<open>The status reply\<close>

text \<open>
  Claim C9 on the code. The page is mounted, the socket opens, a dispatch sets the
  speaking flag, and a \<^verbatim>\<open>getStatus\<close> command arrives: the client sends exactly one
  status frame, and its \<^verbatim>\<open>speaking\<close> field is false although the flag is true,
  because the handler reads the flag of the render that registered it.
\<close>

theorem status_reply_reports_stale_flag:
  "isAISpeaking (state (setIsAISpeaking True (page_event (avatar_effect new_page) (Socket_opens 0))))
   \<and> effects (avatar (page_event
         (setIsAISpeaking True (page_event (avatar_effect new_page) (Socket_opens 0)))
         (Socket_message 0 (Some GetStatus))))
     = effects (avatar (setIsAISpeaking True (page_event (avatar_effect new_page) (Socket_opens 0))))
       @ [Frame_sent 0 (Status True False (ascii ''neutral''))]"
proof -
  have 1: "avatar_effect new_page =
      \<lparr>state = new_home, avatar = connect (new_client True), captured = Some False\<rparr>"
    by (simp add: avatar_effect_def new_page_def new_home_def)
  have 2: "setIsAISpeaking True (page_event (avatar_effect new_page) (Socket_opens 0)) =
      \<lparr>state = new_home\<lparr>isAISpeaking := True\<rparr>,
       avatar = run [command_handler False] (new_client True) [Call_connect, Socket_opens 0],
       captured = Some False\<rparr>"
    unfolding 1
    by (simp add: setIsAISpeaking_def page_event_def page_handlers_def run_def step_def)
  show ?thesis
    unfolding 2 opened_client
    by (simp add: page_event_def page_handlers_def step_def on_message_def handleCommand_def
        command_handler_def send_def isConnected_def ws_state_def)
qed

end
